theory Spec2Isabelle
  imports Main "HOL-Library.Word"
begin

unbundle bit_operations_syntax

section \<open>Data model (ring\_buffer.h)\<close>

text \<open>
  The C structure \<^verbatim>\<open>struct ring\<close> has a pointer to the backing region and five
  \<^verbatim>\<open>uint32_t\<close> fields. The pointer is modelled by the bytes of the region it points
  to (the length of the list is the real length of the caller's region, which the C code
  never sees). The fields \<^verbatim>\<open>size\<close> and \<^verbatim>\<open>mask\<close> carry a suffix because \<open>size\<close> and
  \<open>mask\<close> are constants of HOL. \<^verbatim>\<open>size_t\<close> is taken with 64 bits, as \<^verbatim>\<open>main.c\<close> prints it
  (\<^verbatim>\<open>%llu\<close>); the values it carries here are those of a \<^verbatim>\<open>uint32_t\<close>.
\<close>

type_synonym byte = "8 word"
type_synonym u32 = "32 word"
type_synonym size_t = "64 word"

record ring =
  buffer :: "byte list"
  size_rb :: u32
  mask_rb :: u32
  esize :: u32
  head :: u32
  tail :: u32

text \<open>
  Undefined behaviour of the C program is a value of the model: a division by zero and a
  \<^verbatim>\<open>memcpy\<close> that leaves one of its two regions.
\<close>

datatype fault = DivideByZero | OutOfBounds

text \<open>The two values \<^verbatim>\<open>ring_buffer_init\<close> returns: \<^verbatim>\<open>0\<close> and \<^verbatim>\<open>-EINVAL\<close>.\<close>

datatype retcode = RET_OK | RET_EINVAL

section \<open>Operations (ring\_buffer.c)\<close>

text \<open>The macro \<^verbatim>\<open>min(a, b) ((a) < (b) ? (a):(b))\<close> at type \<^verbatim>\<open>uint32_t\<close>.\<close>

definition min_u32 :: "u32 \<Rightarrow> u32 \<Rightarrow> u32" where
  "min_u32 a b = (if a < b then a else b)"

text \<open>
  \<^verbatim>\<open>memcpy(dst + d, src + s, n)\<close> on two separate regions: the \<open>n\<close> bytes of \<open>src\<close> from
  offset \<open>s\<close> replace the \<open>n\<close> bytes of \<open>dst\<close> from offset \<open>d\<close>. Leaving either region is
  the fault \<open>OutOfBounds\<close>.
\<close>

definition memcpy :: "byte list \<Rightarrow> nat \<Rightarrow> byte list \<Rightarrow> nat \<Rightarrow> nat \<Rightarrow> fault + byte list" where
  "memcpy dst d src s n =
     (if d + n \<le> length dst \<and> s + n \<le> length src
      then Inr (take d dst @ take n (drop s src) @ drop (d + n) dst)
      else Inl OutOfBounds)"

text \<open>
  \<^verbatim>\<open>ring_buffer_init(rb, buf, size, esize)\<close>. The result is the returned code together with
  the structure as the call leaves it. The first \<^verbatim>\<open>return -EINVAL\<close> comes before any
  store to \<^verbatim>\<open>*rb\<close>; the second one comes after five of them.
\<close>

definition ring_buffer_init ::
  "ring \<Rightarrow> byte list \<Rightarrow> u32 \<Rightarrow> u32 \<Rightarrow> fault + (retcode \<times> ring)" where
  "ring_buffer_init rb buf sz es =
     (if es = 0 then Inl DivideByZero
      else
        let sz = sz div es in
        if sz AND (sz - 1) \<noteq> 0 then Inr (RET_EINVAL, rb)
        else
          let rb = rb\<lparr>buffer := buf, size_rb := sz, esize := es, head := 0, tail := 0\<rparr> in
          if sz < 2 then Inr (RET_EINVAL, rb\<lparr>mask_rb := 0\<rparr>)
          else Inr (RET_OK, rb\<lparr>mask_rb := sz - 1\<rparr>))"

text \<open>
  \<^verbatim>\<open>ring_space\<close> and \<^verbatim>\<open>ring_used\<close> take a \<^verbatim>\<open>const ring_t *\<close> and return a \<^verbatim>\<open>size_t\<close>: the
  arithmetic is done at \<^verbatim>\<open>uint32_t\<close> and the result is widened.
\<close>

definition ring_space :: "ring \<Rightarrow> size_t" where
  "ring_space rb = ucast (size_rb rb - (head rb - tail rb))"

definition ring_used :: "ring \<Rightarrow> size_t" where
  "ring_used rb = ucast (head rb - tail rb)"

text \<open>
  The prologue that \<^verbatim>\<open>__ring_put\<close> and \<^verbatim>\<open>__ring_get\<close> share word for word (lines 82-93
  and 125-136): the masked offset, the scaling by the element size when it is not 1, and
  the length \<open>l\<close> of the first segment. The result is \<open>(offset, len, l)\<close> in bytes.
\<close>

definition ring_split :: "ring \<Rightarrow> u32 \<Rightarrow> u32 \<Rightarrow> u32 \<times> u32 \<times> u32" where
  "ring_split rb len offset =
     (let size = size_rb rb;
          esize = esize rb;
          offset = offset AND mask_rb rb;
          (offset, size, len) =
            (if esize \<noteq> 1 then (offset * esize, size * esize, len * esize)
             else (offset, size, len));
          l = min_u32 len (size - offset)
      in (offset, len, l))"

text \<open>\<^verbatim>\<open>__ring_put(rb, src, len, offset)\<close>: two copies into the backing region.\<close>

definition ring_put_internal :: "ring \<Rightarrow> byte list \<Rightarrow> u32 \<Rightarrow> u32 \<Rightarrow> fault + ring" where
  "ring_put_internal rb src len offset =
     (case ring_split rb len offset of (offset, len, l) \<Rightarrow>
        (case memcpy (buffer rb) (unat offset) src 0 (unat l) of
           Inl f \<Rightarrow> Inl f
         | Inr b1 \<Rightarrow>
            (case memcpy b1 0 src (unat l) (unat (len - l)) of
               Inl f \<Rightarrow> Inl f
             | Inr b2 \<Rightarrow> Inr (rb\<lparr>buffer := b2\<rparr>))))"

text \<open>\<^verbatim>\<open>ring_put(rb, buf, len)\<close>: the returned count and the structure afterwards.\<close>

definition ring_put :: "ring \<Rightarrow> byte list \<Rightarrow> u32 \<Rightarrow> fault + (u32 \<times> ring)" where
  "ring_put rb buf len =
     (let l = (ucast (ring_space rb) :: u32);
          len = min_u32 len l
      in case ring_put_internal rb buf len (head rb) of
           Inl f \<Rightarrow> Inl f
         | Inr rb \<Rightarrow> Inr (len, rb\<lparr>head := head rb + len\<rparr>))"

text \<open>
  \<^verbatim>\<open>__ring_get(rb, dst, len, offset)\<close>: two copies out of the backing region; the result is
  the destination afterwards.
\<close>

definition ring_get_internal :: "ring \<Rightarrow> byte list \<Rightarrow> u32 \<Rightarrow> u32 \<Rightarrow> fault + byte list" where
  "ring_get_internal rb dst len offset =
     (case ring_split rb len offset of (offset, len, l) \<Rightarrow>
        (case memcpy dst 0 (buffer rb) (unat offset) (unat l) of
           Inl f \<Rightarrow> Inl f
         | Inr d1 \<Rightarrow> memcpy d1 (unat l) (buffer rb) 0 (unat (len - l))))"

text \<open>
  \<^verbatim>\<open>ring_get(rb, buf, len)\<close>: the returned count (a \<^verbatim>\<open>size_t\<close>), the structure and the
  destination afterwards.
\<close>

definition ring_get :: "ring \<Rightarrow> byte list \<Rightarrow> u32 \<Rightarrow> fault + (size_t \<times> ring \<times> byte list)" where
  "ring_get rb buf len =
     (let l = (ucast (ring_used rb) :: u32);
          len = min_u32 l len
      in case ring_get_internal rb buf len (tail rb) of
           Inl f \<Rightarrow> Inl f
         | Inr buf \<Rightarrow> Inr (ucast len, rb\<lparr>tail := tail rb + len\<rparr>, buf))"

section \<open>Vocabulary of the specification\<close>

text \<open>A capacity is a power of two: one of \<open>1, 2, 4, ..., 2 ^ 31\<close>.\<close>

definition power_of_two :: "u32 \<Rightarrow> bool" where
  "power_of_two n = (\<exists>k \<in> {0..<32}. unat n = 2 ^ k)"

text \<open>
  What a successful \<^verbatim>\<open>ring_buffer_init\<close> establishes about the fields that never change
  afterwards: the capacity is a power of two and at least 2, the mask is the capacity
  minus one, the element size is positive, and the capacity in bytes fits the backing
  region (whose size was passed as a \<^verbatim>\<open>uint32_t\<close>).
\<close>

definition cap_bytes :: "ring \<Rightarrow> nat" where
  "cap_bytes rb = unat (size_rb rb) * unat (esize rb)"

definition ring_wf :: "ring \<Rightarrow> bool" where
  "ring_wf rb =
     (power_of_two (size_rb rb) \<and> 2 \<le> size_rb rb \<and> mask_rb rb = size_rb rb - 1 \<and>
      esize rb \<noteq> 0 \<and> cap_bytes rb \<le> length (buffer rb) \<and> cap_bytes rb < 2 ^ 32)"

text \<open>The invariant on the two counters, with the subtraction of \<^verbatim>\<open>uint32_t\<close>.\<close>

definition ring_inv :: "ring \<Rightarrow> bool" where
  "ring_inv rb = (head rb - tail rb \<le> size_rb rb)"

definition ring_ok :: "ring \<Rightarrow> bool" where
  "ring_ok rb = (ring_wf rb \<and> ring_inv rb)"

text \<open>
  The physical slot of the logical index \<open>i\<close> is \<open>(i & mask) * element_size\<close> bytes into
  the storage; the element stored there is the next \<open>element_size\<close> bytes.
\<close>

definition slot_off :: "ring \<Rightarrow> u32 \<Rightarrow> nat" where
  "slot_off rb i = unat (i AND mask_rb rb) * unat (esize rb)"

definition slot :: "ring \<Rightarrow> u32 \<Rightarrow> byte list" where
  "slot rb i = take (unat (esize rb)) (drop (slot_off rb i) (buffer rb))"

text \<open>
  The stored elements, oldest first: those at the logical indices \<open>tail, tail + 1, ...\<close>
  up to \<open>head\<close>, as one sequence of bytes.
\<close>

definition contents :: "ring \<Rightarrow> byte list" where
  "contents rb = concat (map (\<lambda>j. slot rb (tail rb + word_of_nat j)) [0..<unat (head rb - tail rb)])"

text \<open>
  The offsets into the backing region that a put of \<open>n\<close> elements may write: those of
  the slots of the logical indices \<open>head, ..., head + n - 1\<close>.
\<close>

definition put_footprint :: "ring \<Rightarrow> nat \<Rightarrow> nat \<Rightarrow> bool" where
  "put_footprint rb n q =
     (\<exists>j \<in> {0..<n}. slot_off rb (head rb + word_of_nat j) \<le> q \<and>
                     q < slot_off rb (head rb + word_of_nat j) + unat (esize rb))"

text \<open>
  A program that uses the buffer is a sequence of calls of \<^verbatim>\<open>ring_put\<close> and \<^verbatim>\<open>ring_get\<close>,
  each with its source or destination and its requested count. \<open>run\<close> gives the state
  after the sequence, or the fault of the first call that has one. A call keeps the
  caller's part of the contract when its source or destination holds the requested number
  of elements.
\<close>

datatype call = Put "byte list" u32 | Get "byte list" u32

fun step :: "ring \<Rightarrow> call \<Rightarrow> fault + ring" where
  "step rb (Put src len) =
     (case ring_put rb src len of Inl f \<Rightarrow> Inl f | Inr (n, rb') \<Rightarrow> Inr rb')"
| "step rb (Get dst len) =
     (case ring_get rb dst len of Inl f \<Rightarrow> Inl f | Inr (n, rb', dst') \<Rightarrow> Inr rb')"

fun run :: "ring \<Rightarrow> call list \<Rightarrow> fault + ring" where
  "run rb [] = Inr rb"
| "run rb (c # cs) = (case step rb c of Inl f \<Rightarrow> Inl f | Inr rb' \<Rightarrow> run rb' cs)"

fun call_ok :: "u32 \<Rightarrow> call \<Rightarrow> bool" where
  "call_ok es (Put src len) = (unat len * unat es \<le> length src)"
| "call_ok es (Get dst len) = (unat len * unat es \<le> length dst)"

text \<open>
  The result of the two copies of \<^verbatim>\<open>__ring_put\<close> on a region whose ring area has \<open>S\<close>
  bytes, as one expression on lists (used in the proofs only).
\<close>

definition two_segments_write :: "'a list \<Rightarrow> nat \<Rightarrow> nat \<Rightarrow> 'a list \<Rightarrow> nat \<Rightarrow> 'a list" where
  "two_segments_write buf S off src n =
     (let l = min n (S - off);
          b1 = take off buf @ take l src @ drop (off + l) buf
      in take (n - l) (drop l src) @ drop (n - l) b1)"

text \<open>
  The ring area read circularly, starting at the slot of the logical index \<open>x\<close> (used in
  the proofs only).
\<close>

definition ring_view :: "ring \<Rightarrow> nat \<Rightarrow> byte list" where
  "ring_view rb x = rotate (x * unat (esize rb)) (take (cap_bytes rb) (buffer rb))"

text \<open>
  The counts that \<^verbatim>\<open>ring_put\<close> and \<^verbatim>\<open>ring_get\<close> compute at \<^verbatim>\<open>uint32_t\<close>, and the structure
  each of them leaves (names for the proofs).
\<close>

definition put_count :: "ring \<Rightarrow> u32 \<Rightarrow> u32" where
  "put_count rb len = min_u32 len (size_rb rb - (head rb - tail rb))"

definition get_count :: "ring \<Rightarrow> u32 \<Rightarrow> u32" where
  "get_count rb len = min_u32 (head rb - tail rb) len"

definition put_state :: "ring \<Rightarrow> byte list \<Rightarrow> u32 \<Rightarrow> ring" where
  "put_state rb src len =
     rb\<lparr>buffer := two_segments_write (buffer rb) (cap_bytes rb) (slot_off rb (head rb)) src
                      (unat (put_count rb len) * unat (esize rb)),
        head := head rb + put_count rb len\<rparr>"

definition get_state :: "ring \<Rightarrow> u32 \<Rightarrow> ring" where
  "get_state rb len = rb\<lparr>tail := tail rb + get_count rb len\<rparr>"

text \<open>
  The buffer of \<^verbatim>\<open>main.c\<close> (a region of 8 bytes, elements of 2 bytes, capacity 4) with
  given counters, for the examples.
\<close>

definition example_ring :: "u32 \<Rightarrow> u32 \<Rightarrow> ring" where
  "example_ring h t =
     \<lparr>buffer = [10, 11, 12, 13, 14, 15, 16, 17], size_rb = 4, mask_rb = 3, esize = 2,
      head = h, tail = t\<rparr>"

section \<open>Lists: the two segments of a circular copy\<close>

text \<open>
  A circular read of \<open>n\<close> bytes at the offset \<open>off\<close> of an area of \<open>S\<close> bytes is a prefix
  of the area rotated by \<open>off\<close>; a circular write replaces that prefix. The two segments
  of the C code are the part of the prefix before the end of the area and the part after
  the wrap.
\<close>

lemma rotate_le_drop_take: "a \<le> length xs \<Longrightarrow> rotate a xs = drop a xs @ take a xs"
  by (cases "a = length xs") (simp_all add: rotate_drop_take)

lemma take_length_append: "length xs = k \<Longrightarrow> take k (xs @ ys) = xs"
  by simp

lemma drop_length_append: "length xs = k \<Longrightarrow> drop k (xs @ ys) = ys"
  by simp

lemma two_segments_read:
  assumes off: "off < S" and S: "S \<le> length buf" and n: "n \<le> S"
  shows "take (min n (S - off)) (drop off buf) @ take (n - min n (S - off)) buf
         = take n (rotate off (take S buf))"
proof -
  let ?R = "take S buf"
  have len: "length ?R = S" using S by simp
  have rot: "rotate off ?R = drop off ?R @ take off ?R"
    using off len by (simp only: rotate_le_drop_take less_imp_le)
  have d: "drop off ?R = take (S - off) (drop off buf)" by (simp only: drop_take)
  have lenA: "length (drop off ?R) = S - off" using len by simp
  have m1: "min (n - (S - off)) (min off S) = n - min n (S - off)"
    using off n by arith
  have "take n (rotate off ?R) = take n (drop off ?R) @ take (n - (S - off)) (take off ?R)"
    by (simp only: rot take_append lenA)
  also have "take n (drop off ?R) = take (min n (S - off)) (drop off buf)"
    by (simp only: d take_take)
  also have "take (n - (S - off)) (take off ?R) = take (n - min n (S - off)) buf"
    by (simp only: take_take m1)
  finally show ?thesis by simp
qed


lemma two_segments_write_cases:
  assumes "off < S" "S \<le> length buf" "n \<le> S" "n \<le> length src"
  shows "two_segments_write buf S off src n =
     (if n \<le> S - off then take off buf @ take n src @ drop (off + n) buf
      else take (n - (S - off)) (drop (S - off) src) @ drop (n - (S - off)) (take off buf) @
           take (S - off) src @ drop S buf)"
proof (cases "n \<le> S - off")
  case True
  then have "min n (S - off) = n" by simp
  then show ?thesis using True by (simp add: two_segments_write_def Let_def)
next
  case False
  then have m: "min n (S - off) = S - off" by simp
  have a: "off + (S - off) = S" using assms by simp
  have b: "n - (S - off) \<le> off" using assms by simp
  have c: "length (take off buf) = off" using assms by simp
  have "drop (n - (S - off)) (take off buf @ take (S - off) src @ drop S buf) =
        drop (n - (S - off)) (take off buf) @ take (S - off) src @ drop S buf"
    using b c by (simp only: drop_append) simp
  then show ?thesis using False by (simp add: two_segments_write_def Let_def m a)
qed


lemma two_segments_write_length:
  assumes "off < S" "S \<le> length buf" "n \<le> S" "n \<le> length src"
  shows "length (two_segments_write buf S off src n) = length buf"
proof (cases "n \<le> S - off")
  case True
  then show ?thesis using assms by (simp add: two_segments_write_cases [OF assms])
next
  case False
  then show ?thesis using assms by (simp add: two_segments_write_cases [OF assms])
qed


lemma two_segments_write_drop:
  assumes "off < S" "S \<le> length buf" "n \<le> S" "n \<le> length src"
  shows "drop S (two_segments_write buf S off src n) = drop S buf"
proof (cases "n \<le> S - off")
  case True
  let ?X = "take off buf @ take n src"
  have w: "two_segments_write buf S off src n = ?X @ drop (off + n) buf"
    using True by (simp only: two_segments_write_cases [OF assms] if_True append_assoc)
  have len: "length ?X = off + n" using assms by simp
  have le: "off + n \<le> S" using True assms by simp
  have "drop S (?X @ drop (off + n) buf) = drop S ?X @ drop (S - length ?X) (drop (off + n) buf)"
    by (rule drop_append)
  also have "drop S ?X = []" using len le by (simp only: drop_eq_Nil)
  also have "drop (S - length ?X) (drop (off + n) buf) = drop S buf"
    using le by (simp only: len drop_drop) simp
  finally show ?thesis by (simp only: w append_Nil)
next
  case False
  let ?A = "take (n - (S - off)) (drop (S - off) src) @ drop (n - (S - off)) (take off buf) @ take (S - off) src"
  have w: "two_segments_write buf S off src n = ?A @ drop S buf"
    using False by (simp only: two_segments_write_cases [OF assms] if_False append_assoc)
  have len: "length ?A = S" using False assms by simp
  have "drop S (?A @ drop S buf) = drop S ?A @ drop (S - length ?A) (drop S buf)"
    by (rule drop_append)
  also have "\<dots> = drop S buf" by (simp only: len drop_all [OF eq_imp_le [OF len]] append_Nil diff_self_eq_0 drop_0)
  finally show ?thesis by (simp only: w)
qed


lemma two_segments_write_rotate:
  assumes "off < S" "S \<le> length buf" "n \<le> S" "n \<le> length src"
  shows "rotate off (take S (two_segments_write buf S off src n))
         = take n src @ drop n (rotate off (take S buf))"
proof -
  let ?R = "take S buf"
  have lenR: "length ?R = S" using assms by simp
  have rotR: "rotate off ?R = take (S - off) (drop off buf) @ take off buf"
    using assms lenR by (simp add: rotate_le_drop_take drop_take)
  have lenD: "length (take (S - off) (drop off buf)) = S - off" using assms by simp
  show ?thesis
  proof (cases "n \<le> S - off")
    case True
    let ?X = "take off buf" and ?Y = "take n src @ take (S - off - n) (drop (off + n) buf)"
    have lenX: "length ?X = off" using assms by simp
    have "length (take off buf @ take n src) = off + n" using assms by simp
    then have "take S ((take off buf @ take n src) @ drop (off + n) buf) =
        (take off buf @ take n src) @ take (S - (off + n)) (drop (off + n) buf)"
      using True assms by (simp only: take_append) simp
    then have R': "take S (two_segments_write buf S off src n) = ?X @ ?Y"
      using True by (simp add: two_segments_write_cases [OF assms])
    have "length (?X @ ?Y) = S" using True assms by simp
    then have "rotate off (?X @ ?Y) = drop off (?X @ ?Y) @ take off (?X @ ?Y)"
      using assms by (intro rotate_le_drop_take) simp
    also have "\<dots> = ?Y @ ?X"
      by (simp only: take_length_append [OF lenX] drop_length_append [OF lenX])
    finally have lhs: "rotate off (take S (two_segments_write buf S off src n)) = ?Y @ ?X"
      by (simp only: R')
    have "drop n (take (S - off) (drop off buf)) = take (S - off - n) (drop (off + n) buf)"
      by (simp add: drop_take add.commute)
    then have "drop n (rotate off ?R) = take (S - off - n) (drop (off + n) buf) @ take off buf"
      using True lenD by (simp only: rotR drop_append) simp
    with lhs show ?thesis by simp
  next
    case False
    define l where "l = S - off"
    let ?P = "take (n - l) (drop l src) @ drop (n - l) (take off buf)" and ?Q = "take l src"
    have nl: "l < n" "n - l \<le> off" "l \<le> length src" using False assms by (simp_all add: l_def)
    have lenP: "length ?P = off" using nl assms by simp
    have lenQ: "length ?Q = l" using nl by simp
    have w: "two_segments_write buf S off src n = (?P @ ?Q) @ drop S buf"
      using False by (simp add: two_segments_write_cases [OF assms] l_def)
    have lenPQ: "length (?P @ ?Q) = S" using lenP lenQ assms by (simp add: l_def)
    then have R': "take S (two_segments_write buf S off src n) = ?P @ ?Q"
      by (simp only: w take_length_append)
    have "rotate off (?P @ ?Q) = drop off (?P @ ?Q) @ take off (?P @ ?Q)"
      using lenPQ assms by (intro rotate_le_drop_take) simp
    also have "\<dots> = ?Q @ ?P"
      by (simp only: take_length_append [OF lenP] drop_length_append [OF lenP])
    also have "\<dots> = (take l src @ take (n - l) (drop l src)) @ drop (n - l) (take off buf)"
      by simp
    also have "take l src @ take (n - l) (drop l src) = take n src"
      using nl take_add [of l "n - l" src] by simp
    finally have lhs: "rotate off (take S (two_segments_write buf S off src n)) =
        take n src @ drop (n - l) (take off buf)"
      by (simp only: R')
    have "drop n (rotate off ?R) = drop (n - l) (take off buf)"
      using nl lenD by (simp only: rotR drop_append) (simp add: l_def)
    with lhs show ?thesis by simp
  qed
qed

lemma write_view:
  assumes len: "length V = S" "length V' = S" and a: "a + n \<le> S" and src: "n \<le> length src"
    and rot: "rotate a V' = take n src @ drop n (rotate a V)"
  shows "V' = take a V @ take n src @ drop (a + n) V"
proof -
  have eq: "drop a V' @ take a V' = (take n src @ drop (a + n) V) @ take a V"
    using rot len a src by (simp add: rotate_le_drop_take add.commute)
  have ln: "length (drop a V') = length (take n src @ drop (a + n) V)"
    using len a src by simp
  have "drop a V' = take n src @ drop (a + n) V \<and> take a V' = take a V"
    by (rule append_eq_append_conv [THEN iffD1, OF disjI1 [OF ln] eq])
  then have "take a V' @ drop a V' = take a V @ take n src @ drop (a + n) V" by simp
  then show ?thesis by simp
qed

lemma slots_concat:
  assumes len: "length R = s * e" and e: "0 < e" and u: "u \<le> s"
  shows "concat (map (\<lambda>j. take e (drop (((t + j) mod s) * e) R)) [0..<u])
         = take (u * e) (rotate (t * e) R)"
  using u
proof (induction u)
  case 0
  then show ?case by simp
next
  case (Suc u)
  let ?V = "rotate (t * e) R"
  let ?x = "((t + u) mod s) * e"
  from Suc.prems have us: "u < s" by simp
  then have spos: "0 < s" by simp
  have x: "?x + e \<le> s * e"
  proof -
    have "(t + u) mod s < s" using spos by simp
    then have "Suc ((t + u) mod s) \<le> s" by simp
    then have "Suc ((t + u) mod s) * e \<le> s * e" by (rule mult_le_mono1)
    then show ?thesis by simp
  qed
  have ue: "u * e + e \<le> s * e"
  proof -
    have "Suc u * e \<le> s * e" using us by (intro mult_le_mono1) simp
    then show ?thesis by simp
  qed
  have "take e (drop (u * e) ?V) = take e (rotate (u * e) ?V)"
    using ue len us e by (simp add: rotate_le_drop_take)
  also have "rotate (u * e) ?V = rotate ((t + u) * e) R"
    by (simp add: rotate_rotate add_mult_distrib add.commute)
  also have "\<dots> = rotate ?x R"
    using len by (simp add: rotate_conv_mod [of "(t + u) * e"] mod_mult_mult2)
  also have "take e (rotate ?x R) = take e (drop ?x R)"
    using x len spos e by (simp add: rotate_le_drop_take)
  finally have last: "take e (drop (u * e) ?V) = take e (drop ?x R)" .
  have "take (Suc u * e) ?V = take (u * e) ?V @ take e (drop (u * e) ?V)"
    by (simp add: take_add [symmetric] add.commute)
  with Suc.IH us last show ?case by simp
qed

lemma circ_back:
  fixes off S q :: nat
  assumes off: "off < S" and q: "q < S"
  shows "(off + (q + S - off) mod S) mod S = q"
proof (cases "off \<le> q")
  case le: True
  let ?p = "(q + S - off) mod S"
  have e1: "q + S - off = (q - off) + S" using le by arith
  have "?p = (q - off) mod S" by (simp only: e1 mod_add_self2)
  also have "\<dots> = q - off" using q by (intro mod_less) arith
  finally have "off + ?p = q" using le by arith
  then show ?thesis using q by (simp only: mod_less)
next
  case False
  let ?p = "(q + S - off) mod S"
  have "q + S - off < S" using False off by arith
  then have "?p = q + S - off" by (rule mod_less)
  then have "off + ?p = q + S" using off by arith
  then show ?thesis using q by (simp only: mod_add_self2 mod_less)
qed

lemma two_segments_write_nth:
  assumes off: "off < S" and S: "S \<le> length buf" and n: "n \<le> S" and src: "n \<le> length src"
    and q: "q < length buf" and out: "\<not> (q < S \<and> (q + S - off) mod S < n)"
  shows "two_segments_write buf S off src n ! q = buf ! q"
proof (cases "q < S")
  case False
  let ?W = "two_segments_write buf S off src n"
  have lW: "length ?W = length buf" by (rule two_segments_write_length [OF off S n src])
  have qs: "S + (q - S) = q" using False by simp
  have "?W ! q = ?W ! (S + (q - S))" by (simp only: qs)
  also have "\<dots> = drop S ?W ! (q - S)" using S by (simp only: lW nth_drop)
  also have "\<dots> = drop S buf ! (q - S)" by (simp only: two_segments_write_drop [OF off S n src])
  also have "\<dots> = buf ! (S + (q - S))" using S by (simp only: nth_drop)
  finally show ?thesis by (simp only: qs)
next
  case True
  let ?W = "two_segments_write buf S off src n"
  let ?R = "take S buf" and ?R' = "take S ?W"
  let ?p = "(q + S - off) mod S"
  have lW: "length ?W = length buf" by (rule two_segments_write_length [OF off S n src])
  have lR: "length ?R = S" using S by simp
  have lR': "length ?R' = S" using S lW by simp
  have p: "?p < S" using off by (intro mod_less_divisor) arith
  have np: "n \<le> ?p" using out True by arith
  have idx: "(off + ?p) mod S = q" by (rule circ_back [OF off True])
  have lsrc: "length (take n src) = n" using src by simp
  have rot: "rotate off ?R' = take n src @ drop n (rotate off ?R)"
    by (rule two_segments_write_rotate [OF off S n src])
  have "?W ! q = ?R' ! q" using True by (simp only: nth_take)
  also have "\<dots> = rotate off ?R' ! ?p"
    using p by (simp only: nth_rotate [of ?p ?R' off] lR' idx)
  also have "\<dots> = (take n src @ drop n (rotate off ?R)) ! ?p" by (simp only: rot)
  also have "\<dots> = drop n (rotate off ?R) ! (?p - n)"
    using np lsrc by (simp only: nth_append) simp
  also have "\<dots> = rotate off ?R ! (n + (?p - n))"
    using n by (simp only: nth_drop length_rotate lR)
  also have "n + (?p - n) = ?p" using np by simp
  also have "rotate off ?R ! ?p = ?R ! q"
    using p by (simp only: nth_rotate [of ?p ?R off] lR idx)
  also have "\<dots> = buf ! q" using True by (simp only: nth_take)
  finally show ?thesis .
qed

lemma scaled_mod:
  fixes a :: nat
  assumes "r < e"
  shows "(a * e + r) mod (s * e) = (a mod s) * e + r"
proof (cases "s = 0")
  case True
  then show ?thesis by simp
next
  case False
  have "a mod s < s" using False by simp
  then have "Suc (a mod s) * e \<le> s * e" by (intro mult_le_mono1) simp
  then have lt: "(a mod s) * e + r < s * e" using assms by simp
  have "a * e + r = (a div s) * (s * e) + ((a mod s) * e + r)"
  proof -
    have "a * e = (a div s * s + a mod s) * e" by simp
    then show ?thesis by (simp only: add_mult_distrib mult.assoc add.assoc)
  qed
  then have "(a * e + r) mod (s * e) = ((a mod s) * e + r) mod (s * e)"
    by (simp only: mod_mult_self3)
  then show ?thesis using lt by simp
qed

section \<open>Words: powers of two, masks and products\<close>

text \<open>
  The test \<^verbatim>\<open>(size & (size - 1)) != 0\<close> of the initialisation rejects exactly the values
  that are neither 0 nor a power of two. For a power of two \<open>s\<close>, \<open>i & (s - 1)\<close> is
  \<open>i mod s\<close>. Under the invariant none of the three products of the prologue wraps.
\<close>

lemma unat_u32_less: "unat (w :: u32) < 4294967296"
  using unsigned_less [of w, where ?'a = nat] by simp

lemma ucast_size_t_u32: "(ucast (ucast (x::u32) :: size_t) :: u32) = x"
  by (simp add: ucast_up_ucast_id is_up)

lemma unat_size_t_u32: "unat (ucast (x::u32) :: size_t) = unat x"
proof -
  have "unat x < 2 ^ 64" using unat_u32_less [of x] by simp
  then show ?thesis by (simp add: unsigned_ucast_eq take_bit_nat_eq_self)
qed


lemma nat_and_pred_eq_0_iff: "(n AND (n - 1) = 0) = (n = 0 \<or> (\<exists>k. n = 2 ^ k))" for n :: nat
proof (induction n rule: less_induct)
  case (less n)
  show ?case
  proof (cases "n = 0")
    case True
    then show ?thesis by simp
  next
    case nz: False
    show ?thesis
    proof (cases "even n")
      case True
      then obtain m where m: "n = 2 * m" by (elim evenE)
      with nz have mpos: "0 < m" and mlt: "m < n" by auto
      have "(n - 1) div 2 = m - 1" using m mpos by (cases m) auto
      moreover have "n AND (n - 1) = of_bool (odd n \<and> odd (n - 1)) + 2 * ((n div 2) AND ((n - 1) div 2))"
        by (rule and_rec)
      ultimately have a: "n AND (n - 1) = 2 * (m AND (m - 1))"
        using m by simp
      have b: "(\<exists>k. n = 2 ^ k) = (\<exists>k. m = 2 ^ k)"
      proof
        assume "\<exists>k. n = 2 ^ k"
        then obtain k where k: "n = 2 ^ k" ..
        with m mpos have "k \<noteq> 0" by (cases k) auto
        then obtain j where "k = Suc j" by (cases k) auto
        with k m have "m = 2 ^ j" by simp
        then show "\<exists>k. m = 2 ^ k" ..
      next
        assume "\<exists>k. m = 2 ^ k"
        then obtain k where "m = 2 ^ k" ..
        with m have "n = 2 ^ Suc k" by simp
        then show "\<exists>k. n = 2 ^ k" ..
      qed
      show ?thesis using less.IH [OF mlt] a b nz mpos by simp
    next
      case False
      then obtain m where m: "n = 2 * m + 1" by (elim oddE)
      have "n AND (n - 1) = of_bool (odd n \<and> odd (n - 1)) + 2 * ((n div 2) AND ((n - 1) div 2))"
        by (rule and_rec)
      then have a: "n AND (n - 1) = 2 * m"
        using m by simp
      have b: "(\<exists>k. n = 2 ^ k) = (m = 0)"
      proof
        assume "\<exists>k. n = 2 ^ k"
        then obtain k where k: "n = 2 ^ k" ..
        with False have "k = 0" by (cases k) auto
        with k m show "m = 0" by simp
      next
        assume "m = 0"
        with m have "n = 2 ^ 0" by simp
        then show "\<exists>k. n = 2 ^ k" ..
      qed
      show ?thesis using a b nz by simp
    qed
  qed
qed

lemma word_and_pred_eq_0_iff:
  "(w AND (w - 1) = 0) = (w = 0 \<or> power_of_two w)" for w :: u32
proof (cases "w = 0")
  case True
  then show ?thesis by simp
next
  case False
  have "(w AND (w - 1) = 0) = (unat (w AND (w - 1)) = 0)"
    by (simp add: unat_eq_0)
  also have "\<dots> = (unat w AND (unat w - 1) = 0)"
    using False by (simp add: unsigned_and_eq unat_minus_one)
  also have "\<dots> = (\<exists>k. unat w = 2 ^ k)"
    using False nat_and_pred_eq_0_iff [of "unat w"] by (simp add: unat_eq_0)
  also have "\<dots> = power_of_two w"
  proof
    assume "\<exists>k. unat w = 2 ^ k"
    then obtain k where k: "unat w = 2 ^ k" ..
    have "k < 32"
    proof (rule ccontr)
      assume "\<not> k < 32"
      then have "(2::nat) ^ 32 \<le> 2 ^ k" by (intro power_increasing) simp_all
      with k unat_u32_less [of w] show False by simp
    qed
    with k show "power_of_two w" by (auto simp: power_of_two_def)
  qed (auto simp: power_of_two_def)
  finally show ?thesis using False by simp
qed

lemma unat_min_u32: "unat (min_u32 a b) = min (unat a) (unat b)"
  by (simp add: min_u32_def word_less_nat_alt min_def)

lemma power_of_two_mask:
  assumes "power_of_two s"
  shows "unat (i AND (s - 1)) = unat i mod unat s"
proof -
  from assms obtain k where k: "k < 32" "unat s = 2 ^ k" by (auto simp: power_of_two_def)
  have "s = word_of_nat (unat s)" by simp
  also have "\<dots> = 2 ^ k" by (simp only: k of_nat_power of_nat_numeral)
  finally have "s = 2 ^ k" .
  then show ?thesis using k
    by (simp flip: mask_eq_exp_minus_1 take_bit_eq_mask add: unsigned_take_bit_eq take_bit_eq_mod unat_mod)
qed

lemma unat_mult_u32: "unat a * unat b < 4294967296 \<Longrightarrow> unat (a * b) = unat a * unat b" for a b :: u32
  using unat_mult_lem [of a b] by simp

lemma ring_split_unat:
  assumes wf: "ring_wf rb" and len: "unat len \<le> unat (size_rb rb)"
    and sp: "ring_split rb len offset = (off', len', l)"
  shows "unat off' = (unat offset mod unat (size_rb rb)) * unat (esize rb)"
    and "unat len' = unat len * unat (esize rb)"
    and "unat l = min (unat len') (cap_bytes rb - unat off')"
    and "unat (len' - l) = unat len' - unat l"
proof -
  let ?s = "unat (size_rb rb)" and ?e = "unat (esize rb)"
  from wf have p2: "power_of_two (size_rb rb)" and m: "mask_rb rb = size_rb rb - 1"
    and cap: "?s * ?e < 4294967296" and e0: "esize rb \<noteq> 0"
    by (simp_all add: ring_wf_def cap_bytes_def)
  have spos: "0 < ?s" using p2 by (auto simp: power_of_two_def)
  have epos: "0 < ?e" using e0 by (simp add: unat_gt_0)
  let ?o = "offset AND mask_rb rb"
  have o: "unat ?o = unat offset mod ?s" using p2 m by (simp add: power_of_two_mask)
  then have olt: "unat ?o < ?s" using spos by simp
  have oe: "unat ?o * ?e < ?s * ?e" using olt epos by simp
  have le: "unat len * ?e \<le> ?s * ?e" using len by simp
  have 1: "unat (?o * esize rb) = unat ?o * ?e" using less_trans [OF oe cap] by (rule unat_mult_u32)
  have 2: "unat (size_rb rb * esize rb) = ?s * ?e" using cap by (rule unat_mult_u32)
  have 3: "unat (len * esize rb) = unat len * ?e" using le_less_trans [OF le cap] by (rule unat_mult_u32)
  have e1: "esize rb = 1 \<Longrightarrow> ?e = 1" by simp
  from sp have off': "off' = (if esize rb \<noteq> 1 then ?o * esize rb else ?o)"
    and len': "len' = (if esize rb \<noteq> 1 then len * esize rb else len)"
    and l: "l = min_u32 len' ((if esize rb \<noteq> 1 then size_rb rb * esize rb else size_rb rb) - off')"
    by (auto simp: ring_split_def Let_def split: if_splits)
  show a: "unat off' = (unat offset mod ?s) * ?e" using off' 1 o e1 by (cases "esize rb = 1") simp_all
  show b: "unat len' = unat len * ?e" using len' 3 e1 by (cases "esize rb = 1") simp_all
  have sz: "unat (if esize rb \<noteq> 1 then size_rb rb * esize rb else size_rb rb) = cap_bytes rb"
    using 2 e1 by (cases "esize rb = 1") (simp_all add: cap_bytes_def)
  have "unat off' \<le> cap_bytes rb" using a o oe by (simp add: cap_bytes_def)
  then have "off' \<le> (if esize rb \<noteq> 1 then size_rb rb * esize rb else size_rb rb)"
    using sz by (simp add: word_le_nat_alt)
  then have "unat ((if esize rb \<noteq> 1 then size_rb rb * esize rb else size_rb rb) - off') = cap_bytes rb - unat off'"
    using sz by (simp add: unat_sub)
  then show c: "unat l = min (unat len') (cap_bytes rb - unat off')"
    using l by (simp add: unat_min_u32)
  then have "l \<le> len'" by (simp add: word_le_nat_alt)
  then show "unat (len' - l) = unat len' - unat l" by (simp add: unat_sub)
qed

section \<open>Initialisation\<close>

text \<open>
  \<^verbatim>\<open>ring_buffer_init\<close> has three outcomes once the element size is positive: a count below
  2 fails after the structure has been filled in, with the mask set to 0; a power of two
  from 2 on succeeds; any other count fails at the first check, before any store.
\<close>

lemma power_of_two_1: "power_of_two 1"
  by (auto simp: power_of_two_def intro: bexI [of _ 0])

lemma word_less_2_cases: "w < 2 \<Longrightarrow> w = 0 \<or> w = 1" for w :: u32
proof -
  assume "w < 2"
  then have "unat w < 2" by (simp add: word_less_nat_alt)
  then have "unat w = 0 \<or> unat w = 1" by arith
  then show ?thesis
  proof
    assume "unat w = 0"
    then show ?thesis by (simp add: unat_eq_0)
  next
    assume "unat w = 1"
    then have "unat w = unat (1::u32)" by simp
    then have "w = 1" by (simp only: word_unat_eq_iff)
    then show ?thesis ..
  qed
qed

lemma ring_buffer_init_cases:
  assumes "es \<noteq> 0"
  shows "ring_buffer_init rb buf sz es =
     Inr (if sz div es < 2
          then (RET_EINVAL, rb\<lparr>buffer := buf, size_rb := sz div es, esize := es,
                                head := 0, tail := 0, mask_rb := 0\<rparr>)
          else if power_of_two (sz div es)
          then (RET_OK, rb\<lparr>buffer := buf, size_rb := sz div es, esize := es,
                            head := 0, tail := 0, mask_rb := sz div es - 1\<rparr>)
          else (RET_EINVAL, rb))"
proof (cases "sz div es < 2")
  case True
  then have "sz div es = 0 \<or> sz div es = 1" by (rule word_less_2_cases)
  then have "sz div es AND (sz div es - 1) = 0" by auto
  then show ?thesis using assms True by (simp add: ring_buffer_init_def Let_def)
next
  case False
  then have "sz div es \<noteq> 0" by auto
  then have "(sz div es AND (sz div es - 1) = 0) = power_of_two (sz div es)"
    by (simp add: word_and_pred_eq_0_iff)
  then show ?thesis using assms False by (simp add: ring_buffer_init_def Let_def)
qed

text \<open>
  Claim C6. With a positive element size, \<^verbatim>\<open>ring_buffer_init\<close> returns \<^verbatim>\<open>-EINVAL\<close> if and
  only if the element count \<open>size / esize\<close> (truncating division) is not a power of two
  or is less than 2. A count of 3 fails, a count of 1 fails, and every count
  \<open>2, 4, 8, ..., 2 ^ 31\<close> succeeds; on success the structure holds the region, the count,
  the element size, \<open>head = tail = 0\<close> and \<open>mask = count - 1\<close>.
\<close>

theorem init_invalid_capacity:
  assumes "es \<noteq> 0"
  shows "\<exists>r rb'. ring_buffer_init rb buf sz es = Inr (r, rb') \<and>
     (r = RET_EINVAL \<longleftrightarrow> \<not> power_of_two (sz div es) \<or> sz div es < 2) \<and>
     (r = RET_OK \<longleftrightarrow> power_of_two (sz div es) \<and> 2 \<le> sz div es) \<and>
     (r = RET_OK \<longrightarrow> rb' = rb\<lparr>buffer := buf, size_rb := sz div es, esize := es,
                                     head := 0, tail := 0, mask_rb := sz div es - 1\<rparr>) \<and>
     (sz div es = 3 \<longrightarrow> r = RET_EINVAL) \<and>
     (sz div es = 1 \<longrightarrow> r = RET_EINVAL) \<and>
     ((\<exists>k \<in> {1..<32}. unat (sz div es) = 2 ^ k) \<longrightarrow> r = RET_OK)"
proof -
  let ?n = "sz div es"
  have three: "\<not> power_of_two 3"
  proof
    assume "power_of_two 3"
    then obtain k where "(3::nat) = 2 ^ k" by (auto simp: power_of_two_def)
    then have "(2::nat) ^ k = 3" by simp
    then show False by (cases k) (auto dest: arg_cong [where f = even])
  qed
  have pow: "2 \<le> ?n \<and> power_of_two ?n" if "k \<in> {1..<32}" "unat ?n = 2 ^ k" for k
  proof -
    from that have "power_of_two ?n" by (auto simp: power_of_two_def)
    moreover have "2 ^ 1 \<le> (2::nat) ^ k" using that by (intro power_increasing) simp_all
    then have "2 \<le> ?n" using that by (simp add: word_le_nat_alt)
    ultimately show ?thesis by simp
  qed
  have one: "\<not> (2::u32) \<le> 1" by (simp add: word_le_nat_alt)
  have lt3: "\<not> (3::u32) < 2" by (simp add: word_less_nat_alt)
  show ?thesis
  proof (cases "?n < 2")
    case True
    then have "\<not> 2 \<le> ?n" by (simp add: not_le)
    with True pow lt3 show ?thesis
      by (auto simp: ring_buffer_init_cases [OF assms])
  next
    case False
    then have "2 \<le> ?n" by (simp add: not_less)
    with False pow three one show ?thesis
      by (auto simp: ring_buffer_init_cases [OF assms])
  qed
qed

text \<open>The call of \<^verbatim>\<open>main.c\<close>: 8 bytes, elements of 2 bytes, capacity 4.\<close>

theorem init_invalid_capacity_witness:
  "(2::u32) \<noteq> 0 \<and>
   ring_buffer_init \<lparr>buffer = [], size_rb = 0, mask_rb = 0, esize = 0, head = 0, tail = 0\<rparr>
     [0, 0, 0, 0, 0, 0, 0, 0] 8 2 =
   Inr (RET_OK, \<lparr>buffer = [0, 0, 0, 0, 0, 0, 0, 0], size_rb = 4, mask_rb = 3, esize = 2,
                 head = 0, tail = 0\<rparr>)"
  using init_invalid_capacity [of 2 "\<lparr>buffer = [], size_rb = 0, mask_rb = 0, esize = 0, head = 0, tail = 0\<rparr>"
      "[0, 0, 0, 0, 0, 0, 0, 0]" 8]
  by (simp add: ring_buffer_init_def Let_def)

text \<open>
  Claim C7: on every failure the structure is to be left in a well-defined state with the
  mask set to 0. The code does so on one of its two failure exits only. A region of 3
  bytes with elements of 2 bytes gives a count of 1: the exit for a count below 2 is taken
  after the region, the count, the element size and both counters have been stored, and
  it sets the mask to 0. A region of 6 bytes with elements of 2 bytes gives a count of 3:
  the call returns \<^verbatim>\<open>-EINVAL\<close> at the power-of-two check, before any store, and every
  field keeps what it held before the call (here a mask of 7, a capacity of 9 and counters
  5 and 1; in \<^verbatim>\<open>main.c\<close> the structure is an uninitialised local).
\<close>

theorem init_not_power_of_two_leaves_structure:
  "ring_buffer_init \<lparr>buffer = [], size_rb = 9, mask_rb = 7, esize = 0, head = 5, tail = 1\<rparr>
     [0, 0, 0, 0, 0, 0] 6 2 =
   Inr (RET_EINVAL, \<lparr>buffer = [], size_rb = 9, mask_rb = 7, esize = 0, head = 5, tail = 1\<rparr>) \<and>
   mask_rb \<lparr>buffer = [], size_rb = 9, mask_rb = 7, esize = 0, head = 5, tail = 1\<rparr> \<noteq> 0 \<and>
   ring_buffer_init \<lparr>buffer = [], size_rb = 9, mask_rb = 7, esize = 0, head = 5, tail = 1\<rparr>
     [0, 0, 0] 3 2 =
   Inr (RET_EINVAL, \<lparr>buffer = [0, 0, 0], size_rb = 1, mask_rb = 0, esize = 2, head = 0, tail = 0\<rparr>)"
  by (simp add: ring_buffer_init_def Let_def)

section \<open>The two copies of a put and of a get\<close>

text \<open>
  Under the invariant, both \<^verbatim>\<open>memcpy\<close> calls of \<^verbatim>\<open>__ring_put\<close> and of \<^verbatim>\<open>__ring_get\<close> stay
  within their regions, and their combined effect is the circular write and the circular
  read of the previous section. The stored sequence is a prefix of the ring area read
  circularly from the slot of \<open>tail\<close>; a put extends that prefix and a get shortens it
  from the front.
\<close>

lemma ring_wf_pos:
  assumes "ring_wf rb"
  shows "0 < unat (size_rb rb)" and "0 < unat (esize rb)" and "0 < cap_bytes rb"
proof -
  from assms have "2 \<le> size_rb rb" and e: "esize rb \<noteq> 0" by (simp_all add: ring_wf_def)
  then have "2 \<le> unat (size_rb rb)" by (simp add: word_le_nat_alt)
  then show s: "0 < unat (size_rb rb)" by simp
  show e': "0 < unat (esize rb)" using e by (simp add: unat_gt_0)
  show "0 < cap_bytes rb" using s e' by (simp add: cap_bytes_def)
qed

lemma slot_off_mod:
  assumes "ring_wf rb"
  shows "slot_off rb i = (unat i mod unat (size_rb rb)) * unat (esize rb)"
  using assms by (simp add: slot_off_def ring_wf_def power_of_two_mask)

lemma slot_off_less:
  assumes "ring_wf rb"
  shows "slot_off rb i + unat (esize rb) \<le> cap_bytes rb"
proof -
  have "unat i mod unat (size_rb rb) < unat (size_rb rb)"
    using ring_wf_pos(1) [OF assms] by simp
  then have "Suc (unat i mod unat (size_rb rb)) \<le> unat (size_rb rb)" by simp
  then have "Suc (unat i mod unat (size_rb rb)) * unat (esize rb) \<le> unat (size_rb rb) * unat (esize rb)"
    by (rule mult_le_mono1)
  then show ?thesis by (simp add: slot_off_mod [OF assms] cap_bytes_def)
qed

lemma ring_split_bounds:
  assumes wf: "ring_wf rb" and len: "unat len \<le> unat (size_rb rb)"
    and sp: "ring_split rb len offset = (off', len', l)"
  shows "unat off' = slot_off rb offset"
    and "unat len' = unat len * unat (esize rb)"
    and "unat l = min (unat len') (cap_bytes rb - unat off')"
    and "unat (len' - l) = unat len' - unat l"
    and "unat off' < cap_bytes rb"
    and "unat len' \<le> cap_bytes rb"
proof -
  note u = ring_split_unat [OF wf len sp]
  show "unat off' = slot_off rb offset" using u(1) by (simp add: slot_off_mod [OF wf])
  then show "unat off' < cap_bytes rb"
    using slot_off_less [OF wf, of offset] ring_wf_pos(2) [OF wf] by simp
  show "unat len' = unat len * unat (esize rb)" by (rule u(2))
  then show "unat len' \<le> cap_bytes rb" using len by (simp add: cap_bytes_def)
  show "unat l = min (unat len') (cap_bytes rb - unat off')" by (rule u(3))
  show "unat (len' - l) = unat len' - unat l" by (rule u(4))
qed

lemma ring_put_internal_eq:
  assumes wf: "ring_wf rb" and len: "unat len \<le> unat (size_rb rb)"
    and src: "unat len * unat (esize rb) \<le> length src"
  shows "ring_put_internal rb src len offset =
         Inr (rb\<lparr>buffer := two_segments_write (buffer rb) (cap_bytes rb) (slot_off rb offset) src
                                (unat len * unat (esize rb))\<rparr>)"
proof -
  obtain off' len' l where sp: "ring_split rb len offset = (off', len', l)"
    by (cases "ring_split rb len offset") auto
  note b = ring_split_bounds [OF wf len sp]
  let ?S = "cap_bytes rb" and ?o = "unat off'" and ?n = "unat len'" and ?l = "unat l"
  have S: "?S \<le> length (buffer rb)" using wf by (simp add: ring_wf_def)
  have n: "?n \<le> length src" using src b(2) by simp
  have l: "?l = min ?n (?S - ?o)" by (rule b(3))
  have l1: "?o + ?l \<le> length (buffer rb)" using l S b(5) by simp
  have l2: "?l \<le> length src" using l n by simp
  let ?b1 = "take ?o (buffer rb) @ take ?l src @ drop (?o + ?l) (buffer rb)"
  have m1: "memcpy (buffer rb) ?o src 0 ?l = Inr ?b1"
    using l1 l2 by (simp add: memcpy_def)
  have lb1: "length ?b1 = length (buffer rb)" using l1 l2 by simp
  have c1: "0 + (?n - ?l) \<le> length ?b1" unfolding lb1 using b(6) S by simp
  have c2: "?l + (?n - ?l) \<le> length src" using l n by simp
  have m2: "memcpy ?b1 0 src ?l (?n - ?l) =
      Inr (take (?n - ?l) (drop ?l src) @ drop (?n - ?l) ?b1)"
    using c1 c2 by (simp only: memcpy_def) simp
  have "ring_put_internal rb src len offset =
      Inr (rb\<lparr>buffer := take (?n - ?l) (drop ?l src) @ drop (?n - ?l) ?b1\<rparr>)"
    by (simp only: ring_put_internal_def sp prod.case m1 m2 b(4) sum.case)
  also have "take (?n - ?l) (drop ?l src) @ drop (?n - ?l) ?b1 =
      two_segments_write (buffer rb) ?S ?o src ?n"
    by (simp only: two_segments_write_def Let_def l [symmetric])
  finally show ?thesis by (simp only: b(1) b(2))
qed


lemma ring_get_internal_eq:
  assumes wf: "ring_wf rb" and len: "unat len \<le> unat (size_rb rb)"
    and dst: "unat len * unat (esize rb) \<le> length dst"
  shows "ring_get_internal rb dst len offset =
         Inr (take (unat len * unat (esize rb))
                (rotate (slot_off rb offset) (take (cap_bytes rb) (buffer rb))) @
              drop (unat len * unat (esize rb)) dst)"
proof -
  obtain off' len' l where sp: "ring_split rb len offset = (off', len', l)"
    by (cases "ring_split rb len offset") auto
  note b = ring_split_bounds [OF wf len sp]
  let ?S = "cap_bytes rb" and ?o = "unat off'" and ?n = "unat len'" and ?l = "unat l"
  let ?buf = "buffer rb"
  have S: "?S \<le> length ?buf" using wf by (simp add: ring_wf_def)
  have n: "?n \<le> length dst" using dst b(2) by simp
  have l: "?l = min ?n (?S - ?o)" by (rule b(3))
  have ln: "?l \<le> ?n" using l by simp
  have l1: "?o + ?l \<le> length ?buf" using l S b(5) by simp
  have l2: "?l \<le> length dst" using l n by simp
  let ?A = "take ?l (drop ?o ?buf)"
  let ?d1 = "?A @ drop ?l dst"
  have lenA: "length ?A = ?l" using l1 by simp
  have m1: "memcpy dst 0 ?buf ?o ?l = Inr ?d1"
    using l1 l2 by (simp add: memcpy_def)
  have ld1: "length ?d1 = length dst" using l2 by (simp only: length_append lenA) simp
  have c1: "?l + (?n - ?l) \<le> length ?d1" unfolding ld1 using ln n by simp
  have c2: "0 + (?n - ?l) \<le> length ?buf" using b(6) S by simp
  have m2: "memcpy ?d1 ?l ?buf 0 (?n - ?l) =
      Inr (take ?l ?d1 @ take (?n - ?l) ?buf @ drop (?l + (?n - ?l)) ?d1)"
    using c1 c2 by (simp only: memcpy_def) simp
  have t: "take ?l ?d1 = ?A" by (rule take_length_append [OF lenA])
  have "drop (?l + (?n - ?l)) ?d1 = drop (?n - ?l) (drop ?l ?d1)"
    by (simp only: drop_drop add.commute)
  also have "drop ?l ?d1 = drop ?l dst" by (rule drop_length_append [OF lenA])
  also have "drop (?n - ?l) (drop ?l dst) = drop ?n dst" using ln by (simp only: drop_drop) simp
  finally have d: "drop (?l + (?n - ?l)) ?d1 = drop ?n dst" .
  have "ring_get_internal rb dst len offset = Inr (?A @ take (?n - ?l) ?buf @ drop ?n dst)"
    by (simp only: ring_get_internal_def sp prod.case m1 m2 b(4) sum.case t d)
  also have "?A @ take (?n - ?l) ?buf @ drop ?n dst =
      (take (min ?n (?S - ?o)) (drop ?o ?buf) @ take (?n - min ?n (?S - ?o)) ?buf) @ drop ?n dst"
    by (simp only: l append_assoc)
  also have "take (min ?n (?S - ?o)) (drop ?o ?buf) @ take (?n - min ?n (?S - ?o)) ?buf =
      take ?n (rotate ?o (take ?S ?buf))"
    using b(5) S b(6) by (rule two_segments_read)
  finally show ?thesis by (simp only: b(1) b(2))
qed


lemma power_of_two_dvd:
  assumes "power_of_two s"
  shows "unat s dvd 2 ^ 32"
proof -
  from assms obtain k where k: "k < 32" "unat s = 2 ^ k" by (auto simp: power_of_two_def)
  then have "(2::nat) ^ k dvd 2 ^ 32" by (intro le_imp_power_dvd) simp
  then show ?thesis by (simp only: k)
qed

lemma unat_add_mod:
  fixes a b :: u32
  assumes "power_of_two s"
  shows "unat (a + b) mod unat s = (unat a + unat b) mod unat s"
proof -
  have "unat (a + b) = (unat a + unat b) mod 2 ^ 32"
    by (simp add: unat_word_ariths)
  then show ?thesis
    by (simp only: mod_mod_cancel [OF power_of_two_dvd [OF assms]])
qed

lemma unat_add_of_nat_mod:
  fixes a :: u32
  assumes "power_of_two s"
  shows "unat (a + word_of_nat j) mod unat s = (unat a + j) mod unat s"
proof -
  have "unat (word_of_nat j :: u32) = j mod 2 ^ 32" by (simp add: unat_of_nat)
  then have "unat (word_of_nat j :: u32) mod unat s = j mod unat s"
    by (simp only: mod_mod_cancel [OF power_of_two_dvd [OF assms]])
  then have "(unat a + unat (word_of_nat j :: u32)) mod unat s = (unat a + j) mod unat s"
    by (metis mod_add_right_eq)
  then show ?thesis by (simp only: unat_add_mod [OF assms])
qed

lemma length_ring_view:
  assumes "ring_wf rb"
  shows "length (ring_view rb x) = cap_bytes rb"
  using assms by (simp add: ring_view_def ring_wf_def)

lemma ring_view_mod:
  assumes "ring_wf rb"
  shows "ring_view rb (x mod unat (size_rb rb)) = ring_view rb x"
proof -
  let ?R = "take (cap_bytes rb) (buffer rb)" and ?e = "unat (esize rb)" and ?s = "unat (size_rb rb)"
  have len: "length ?R = ?s * ?e" using assms by (simp add: ring_wf_def cap_bytes_def)
  have "rotate (x * ?e) ?R = rotate ((x * ?e) mod (?s * ?e)) ?R"
    by (simp only: len rotate_conv_mod [of "x * ?e"])
  also have "(x * ?e) mod (?s * ?e) = (x mod ?s) * ?e" by (rule mod_mult_mult2)
  finally show ?thesis by (simp only: ring_view_def)
qed

lemma ring_view_cong:
  assumes "ring_wf rb" and "x mod unat (size_rb rb) = y mod unat (size_rb rb)"
  shows "ring_view rb x = ring_view rb y"
  using ring_view_mod [OF assms(1), of x] ring_view_mod [OF assms(1), of y] assms(2) by simp

lemma ring_view_add: "ring_view rb (x + y) = rotate (y * unat (esize rb)) (ring_view rb x)"
  by (simp add: ring_view_def rotate_rotate add_mult_distrib add.commute)

lemma ring_view_slot_off:
  assumes "ring_wf rb"
  shows "rotate (slot_off rb i) (take (cap_bytes rb) (buffer rb)) = ring_view rb (unat i)"
  using ring_view_mod [OF assms, of "unat i"]
  by (simp add: slot_off_mod [OF assms] ring_view_def)

lemma ring_view_word_add:
  fixes a b :: u32
  assumes "ring_wf rb"
  shows "ring_view rb (unat (a + b)) = rotate (unat b * unat (esize rb)) (ring_view rb (unat a))"
proof -
  from assms have "power_of_two (size_rb rb)" by (simp add: ring_wf_def)
  then have "unat (a + b) mod unat (size_rb rb) = (unat a + unat b) mod unat (size_rb rb)"
    by (rule unat_add_mod)
  then have "ring_view rb (unat (a + b)) = ring_view rb (unat a + unat b)"
    by (rule ring_view_cong [OF assms])
  then show ?thesis by (simp only: ring_view_add)
qed


lemma slot_eq:
  assumes wf: "ring_wf rb"
  shows "slot rb (a + word_of_nat j) =
         take (unat (esize rb))
           (drop (((unat a + j) mod unat (size_rb rb)) * unat (esize rb))
              (take (cap_bytes rb) (buffer rb)))"
proof -
  let ?e = "unat (esize rb)" and ?S = "cap_bytes rb"
  let ?x = "slot_off rb (a + word_of_nat j)"
  from wf have p2: "power_of_two (size_rb rb)" by (simp add: ring_wf_def)
  have x: "?x = ((unat a + j) mod unat (size_rb rb)) * ?e"
    by (simp only: slot_off_mod [OF wf] unat_add_of_nat_mod [OF p2])
  have le: "?x + ?e \<le> ?S" by (rule slot_off_less [OF wf])
  have "take ?e (drop ?x (take ?S (buffer rb))) = take ?e (take (?S - ?x) (drop ?x (buffer rb)))"
    by (simp only: drop_take)
  also have "\<dots> = take (min ?e (?S - ?x)) (drop ?x (buffer rb))" by (simp only: take_take)
  also have "min ?e (?S - ?x) = ?e" using le by simp
  finally show ?thesis by (simp only: slot_def x)
qed

lemma contents_view:
  assumes ok: "ring_ok rb"
  shows "contents rb =
         take (unat (head rb - tail rb) * unat (esize rb)) (ring_view rb (unat (tail rb)))"
proof -
  from ok have wf: "ring_wf rb" and inv: "ring_inv rb" by (simp_all add: ring_ok_def)
  let ?e = "unat (esize rb)" and ?s = "unat (size_rb rb)" and ?R = "take (cap_bytes rb) (buffer rb)"
  have len: "length ?R = ?s * ?e" using wf by (simp add: ring_wf_def cap_bytes_def)
  have u: "unat (head rb - tail rb) \<le> ?s" using inv by (simp add: ring_inv_def word_le_nat_alt)
  have "contents rb =
      concat (map (\<lambda>j. take ?e (drop (((unat (tail rb) + j) mod ?s) * ?e) ?R))
                [0..<unat (head rb - tail rb)])"
    by (simp only: contents_def slot_eq [OF wf])
  also have "\<dots> = take (unat (head rb - tail rb) * ?e) (rotate (unat (tail rb) * ?e) ?R)"
    using len ring_wf_pos(2) [OF wf] u by (rule slots_concat)
  finally show ?thesis by (simp only: ring_view_def)
qed

lemma length_contents:
  assumes ok: "ring_ok rb"
  shows "length (contents rb) = unat (head rb - tail rb) * unat (esize rb)"
proof -
  from ok have wf: "ring_wf rb" and inv: "ring_inv rb" by (simp_all add: ring_ok_def)
  have "unat (head rb - tail rb) \<le> unat (size_rb rb)"
    using inv by (simp add: ring_inv_def word_le_nat_alt)
  then have "unat (head rb - tail rb) * unat (esize rb) \<le> cap_bytes rb"
    by (simp add: cap_bytes_def)
  then show ?thesis by (simp add: contents_view [OF ok] length_ring_view [OF wf])
qed


lemma ring_inv_unat:
  assumes "ring_inv rb"
  shows "unat (head rb - tail rb) \<le> unat (size_rb rb)"
    and "unat (size_rb rb - (head rb - tail rb)) = unat (size_rb rb) - unat (head rb - tail rb)"
  using assms by (simp_all add: ring_inv_def word_le_nat_alt unat_sub)

lemma unat_ring_space:
  assumes "ring_inv rb"
  shows "unat (ring_space rb) = unat (size_rb rb) - unat (head rb - tail rb)"
  by (simp only: ring_space_def unat_size_t_u32 ring_inv_unat(2) [OF assms])

lemma unat_ring_used: "unat (ring_used rb) = unat (head rb - tail rb)"
  by (simp only: ring_used_def unat_size_t_u32)

lemma unat_put_count:
  assumes "ring_inv rb"
  shows "unat (put_count rb len) = min (unat len) (unat (ring_space rb))"
  by (simp only: put_count_def unat_min_u32 unat_ring_space [OF assms] ring_inv_unat(2) [OF assms])

lemma unat_get_count: "unat (get_count rb len) = min (unat len) (unat (ring_used rb))"
  by (simp add: get_count_def unat_min_u32 unat_ring_used min.commute)

lemma put_count_le:
  assumes "ring_inv rb"
  shows "unat (head rb - tail rb) + unat (put_count rb len) \<le> unat (size_rb rb)"
  using ring_inv_unat(1) [OF assms]
  by (simp add: unat_put_count [OF assms] unat_ring_space [OF assms])

lemma get_count_le: "unat (get_count rb len) \<le> unat (head rb - tail rb)"
  by (simp add: unat_get_count unat_ring_used)

lemma ring_put_eq:
  assumes ok: "ring_ok rb"
    and src: "unat (put_count rb len) * unat (esize rb) \<le> length src"
  shows "ring_put rb src len =
         Inr (put_count rb len,
              rb\<lparr>buffer := two_segments_write (buffer rb) (cap_bytes rb) (slot_off rb (head rb)) src
                              (unat (put_count rb len) * unat (esize rb)),
                 head := head rb + put_count rb len\<rparr>)"
proof -
  from ok have wf: "ring_wf rb" and inv: "ring_inv rb" by (simp_all add: ring_ok_def)
  have n: "unat (put_count rb len) \<le> unat (size_rb rb)" using put_count_le [OF inv, of len] by simp
  have c: "min_u32 len (ucast (ring_space rb)) = put_count rb len"
    by (simp only: put_count_def ring_space_def ucast_size_t_u32)
  show ?thesis
    by (simp add: ring_put_def Let_def c ring_put_internal_eq [OF wf n src])
qed

lemma ring_get_eq:
  assumes ok: "ring_ok rb"
    and dst: "unat (get_count rb len) * unat (esize rb) \<le> length dst"
  shows "ring_get rb dst len =
         Inr (ucast (get_count rb len),
              rb\<lparr>tail := tail rb + get_count rb len\<rparr>,
              take (unat (get_count rb len) * unat (esize rb)) (contents rb) @
              drop (unat (get_count rb len) * unat (esize rb)) dst)"
proof -
  from ok have wf: "ring_wf rb" and inv: "ring_inv rb" by (simp_all add: ring_ok_def)
  let ?n = "get_count rb len" and ?e = "unat (esize rb)"
  have le: "unat ?n \<le> unat (head rb - tail rb)" by (rule get_count_le)
  then have n: "unat ?n \<le> unat (size_rb rb)" using ring_inv_unat(1) [OF inv] by simp
  have c: "min_u32 (ucast (ring_used rb)) len = ?n"
    by (simp only: get_count_def ring_used_def ucast_size_t_u32)
  have "unat ?n * ?e \<le> unat (head rb - tail rb) * ?e" using le by simp
  then have "take (unat ?n * ?e) (contents rb) = take (unat ?n * ?e) (ring_view rb (unat (tail rb)))"
    by (simp only: contents_view [OF ok] take_take min_absorb1)
  then show ?thesis
    by (simp add: ring_get_def Let_def c ring_get_internal_eq [OF wf n dst]
        ring_view_slot_off [OF wf])
qed


lemma put_state_fields:
  "size_rb (put_state rb src len) = size_rb rb"
  "mask_rb (put_state rb src len) = mask_rb rb"
  "esize (put_state rb src len) = esize rb"
  "tail (put_state rb src len) = tail rb"
  "head (put_state rb src len) = head rb + put_count rb len"
  "cap_bytes (put_state rb src len) = cap_bytes rb"
  by (simp_all add: put_state_def cap_bytes_def)

lemma put_bytes_le:
  assumes ok: "ring_ok rb"
  shows "unat (head rb - tail rb) * unat (esize rb) + unat (put_count rb len) * unat (esize rb)
         \<le> cap_bytes rb"
proof -
  from ok have inv: "ring_inv rb" by (simp add: ring_ok_def)
  have "(unat (head rb - tail rb) + unat (put_count rb len)) * unat (esize rb)
        \<le> unat (size_rb rb) * unat (esize rb)"
    using put_count_le [OF inv, of len] by (rule mult_le_mono1)
  then show ?thesis by (simp add: cap_bytes_def add_mult_distrib)
qed

lemma put_state_length:
  assumes ok: "ring_ok rb"
    and src: "unat (put_count rb len) * unat (esize rb) \<le> length src"
  shows "length (buffer (put_state rb src len)) = length (buffer rb)"
proof -
  from ok have wf: "ring_wf rb" by (simp add: ring_ok_def)
  have 1: "slot_off rb (head rb) < cap_bytes rb"
    using slot_off_less [OF wf, of "head rb"] ring_wf_pos(2) [OF wf] by simp
  have 2: "cap_bytes rb \<le> length (buffer rb)" using wf by (simp add: ring_wf_def)
  have 3: "unat (put_count rb len) * unat (esize rb) \<le> cap_bytes rb"
    using put_bytes_le [OF ok, of len] by simp
  show ?thesis
    by (simp add: put_state_def two_segments_write_length [OF 1 2 3 src])
qed

lemma used_after_put:
  assumes inv: "ring_inv rb"
  shows "unat (head rb + put_count rb len - tail rb) =
         unat (head rb - tail rb) + unat (put_count rb len)"
proof -
  have "unat (head rb - tail rb) + unat (put_count rb len) \<le> unat (size_rb rb)"
    by (rule put_count_le [OF inv])
  also have "unat (size_rb rb) < 2 ^ LENGTH(32)" by (rule unsigned_less)
  finally have a: "unat (head rb - tail rb + put_count rb len) =
      unat (head rb - tail rb) + unat (put_count rb len)"
    by (simp only: unat_add_lem)
  have b: "head rb + put_count rb len - tail rb = head rb - tail rb + put_count rb len"
    by simp
  show ?thesis by (simp only: b a)
qed

lemma put_state_ok:
  assumes ok: "ring_ok rb"
    and src: "unat (put_count rb len) * unat (esize rb) \<le> length src"
  shows "ring_ok (put_state rb src len)"
proof -
  from ok have wf: "ring_wf rb" and inv: "ring_inv rb" by (simp_all add: ring_ok_def)
  have "ring_wf (put_state rb src len)"
    using wf by (simp add: ring_wf_def put_state_fields put_state_length [OF ok src])
  moreover have "ring_inv (put_state rb src len)"
    using put_count_le [OF inv, of len]
    by (simp add: ring_inv_def put_state_fields word_le_nat_alt used_after_put [OF inv])
  ultimately show ?thesis by (simp add: ring_ok_def)
qed


lemma ring_view_head:
  assumes wf: "ring_wf rb"
  shows "ring_view rb (unat (head rb)) =
         rotate (unat (head rb - tail rb) * unat (esize rb)) (ring_view rb (unat (tail rb)))"
proof -
  have "head rb = tail rb + (head rb - tail rb)" by simp
  then have "ring_view rb (unat (head rb)) = ring_view rb (unat (tail rb + (head rb - tail rb)))"
    by simp
  then show ?thesis by (simp only: ring_view_word_add [OF wf])
qed

lemma put_state_view:
  assumes ok: "ring_ok rb"
    and src: "unat (put_count rb len) * unat (esize rb) \<le> length src"
  shows "ring_view (put_state rb src len) (unat (tail rb)) =
         take (unat (head rb - tail rb) * unat (esize rb)) (ring_view rb (unat (tail rb))) @
         take (unat (put_count rb len) * unat (esize rb)) src @
         drop (unat (head rb - tail rb) * unat (esize rb) + unat (put_count rb len) * unat (esize rb))
           (ring_view rb (unat (tail rb)))"
proof -
  from ok have wf: "ring_wf rb" by (simp add: ring_ok_def)
  let ?rb' = "put_state rb src len"
  have ok': "ring_ok ?rb'" by (rule put_state_ok [OF ok src])
  then have wf': "ring_wf ?rb'" by (simp add: ring_ok_def)
  let ?a = "unat (head rb - tail rb) * unat (esize rb)"
  let ?nb = "unat (put_count rb len) * unat (esize rb)"
  let ?V = "ring_view rb (unat (tail rb))" and ?V' = "ring_view ?rb' (unat (tail rb))"
  let ?W = "two_segments_write (buffer rb) (cap_bytes rb) (slot_off rb (head rb)) src ?nb"
  have 1: "slot_off rb (head rb) < cap_bytes rb"
    using slot_off_less [OF wf, of "head rb"] ring_wf_pos(2) [OF wf] by simp
  have 2: "cap_bytes rb \<le> length (buffer rb)" using wf by (simp add: ring_wf_def)
  have 3: "?nb \<le> cap_bytes rb" using put_bytes_le [OF ok, of len] by simp
  have so: "slot_off ?rb' (head rb) = slot_off rb (head rb)"
    by (simp add: slot_off_def put_state_fields)
  have bf: "buffer ?rb' = ?W" by (simp add: put_state_def)
  have "rotate ?a ?V' = ring_view ?rb' (unat (tail rb + (head rb - tail rb)))"
    using ring_view_word_add [OF wf', of "tail rb" "head rb - tail rb"]
    by (simp only: put_state_fields)
  also have "\<dots> = ring_view ?rb' (unat (head rb))" by simp
  also have "\<dots> = rotate (slot_off rb (head rb)) (take (cap_bytes rb) ?W)"
    using ring_view_slot_off [OF wf', of "head rb"] by (simp only: so bf put_state_fields)
  also have "\<dots> = take ?nb src @ drop ?nb (rotate (slot_off rb (head rb)) (take (cap_bytes rb) (buffer rb)))"
    by (rule two_segments_write_rotate [OF 1 2 3 src])
  also have "rotate (slot_off rb (head rb)) (take (cap_bytes rb) (buffer rb)) = rotate ?a ?V"
    by (simp only: ring_view_slot_off [OF wf] ring_view_head [OF wf])
  finally have rot: "rotate ?a ?V' = take ?nb src @ drop ?nb (rotate ?a ?V)" .
  have lV: "length ?V = cap_bytes rb" by (rule length_ring_view [OF wf])
  have lV': "length ?V' = cap_bytes rb"
    using length_ring_view [OF wf', of "unat (tail rb)"] by (simp only: put_state_fields)
  show ?thesis
    by (rule write_view [OF lV lV' put_bytes_le [OF ok] src rot])
qed

lemma put_state_contents:
  assumes ok: "ring_ok rb"
    and src: "unat (put_count rb len) * unat (esize rb) \<le> length src"
  shows "contents (put_state rb src len) =
         contents rb @ take (unat (put_count rb len) * unat (esize rb)) src"
proof -
  from ok have wf: "ring_wf rb" and inv: "ring_inv rb" by (simp_all add: ring_ok_def)
  let ?rb' = "put_state rb src len"
  let ?a = "unat (head rb - tail rb) * unat (esize rb)"
  let ?nb = "unat (put_count rb len) * unat (esize rb)"
  let ?V = "ring_view rb (unat (tail rb))"
  have le: "?a + ?nb \<le> cap_bytes rb" by (rule put_bytes_le [OF ok])
  have lV: "length ?V = cap_bytes rb" by (rule length_ring_view [OF wf])
  have lA: "length (take ?a ?V @ take ?nb src) = ?a + ?nb"
    using le lV src by simp
  have "contents ?rb' = take (?a + ?nb) (ring_view ?rb' (unat (tail rb)))"
    using contents_view [OF put_state_ok [OF ok src]]
    by (simp only: put_state_fields used_after_put [OF inv] add_mult_distrib)
  also have "\<dots> = take (?a + ?nb) ((take ?a ?V @ take ?nb src) @ drop (?a + ?nb) ?V)"
    by (simp only: put_state_view [OF ok src] append_assoc)
  also have "\<dots> = take ?a ?V @ take ?nb src" by (rule take_length_append [OF lA])
  finally show ?thesis by (simp only: contents_view [OF ok])
qed


lemma used_after_get:
  "unat (head rb - (tail rb + get_count rb len)) =
   unat (head rb - tail rb) - unat (get_count rb len)"
proof -
  have "get_count rb len \<le> head rb - tail rb"
    using get_count_le [of rb len] by (simp add: word_le_nat_alt)
  then have "unat (head rb - tail rb - get_count rb len) =
      unat (head rb - tail rb) - unat (get_count rb len)"
    by (rule unat_sub)
  moreover have "head rb - (tail rb + get_count rb len) = head rb - tail rb - get_count rb len"
    by simp
  ultimately show ?thesis by (simp only:)
qed

lemma get_state_ok:
  assumes ok: "ring_ok rb"
  shows "ring_ok (get_state rb len)"
proof -
  from ok have wf: "ring_wf rb" and inv: "ring_inv rb" by (simp_all add: ring_ok_def)
  have "ring_wf (get_state rb len)"
    using wf by (simp add: ring_wf_def get_state_def cap_bytes_def)
  moreover have "ring_inv (get_state rb len)"
    using ring_inv_unat(1) [OF inv]
    by (simp add: ring_inv_def get_state_def word_le_nat_alt used_after_get)
  ultimately show ?thesis by (simp add: ring_ok_def)
qed

lemma get_state_contents:
  assumes ok: "ring_ok rb"
  shows "contents (get_state rb len) =
         drop (unat (get_count rb len) * unat (esize rb)) (contents rb)"
proof -
  from ok have wf: "ring_wf rb" and inv: "ring_inv rb" by (simp_all add: ring_ok_def)
  let ?rb' = "get_state rb len"
  let ?a = "unat (head rb - tail rb) * unat (esize rb)"
  let ?nb = "unat (get_count rb len) * unat (esize rb)"
  let ?V = "ring_view rb (unat (tail rb))"
  have nle: "?nb \<le> ?a" using get_count_le [of rb len] by simp
  have ale: "?a \<le> cap_bytes rb"
    using ring_inv_unat(1) [OF inv] by (simp add: cap_bytes_def)
  have lV: "length ?V = cap_bytes rb" by (rule length_ring_view [OF wf])
  have v: "ring_view ?rb' x = ring_view rb x" for x
    by (simp add: ring_view_def get_state_def cap_bytes_def)
  have f: "head ?rb' = head rb" "tail ?rb' = tail rb + get_count rb len" "esize ?rb' = esize rb"
    by (simp_all add: get_state_def)
  have d: "(unat (head rb - tail rb) - unat (get_count rb len)) * unat (esize rb) = ?a - ?nb"
    by (simp add: diff_mult_distrib)
  have "contents ?rb' = take (?a - ?nb) (ring_view rb (unat (tail rb + get_count rb len)))"
    using contents_view [OF get_state_ok [OF ok, of len]]
    by (simp only: f v used_after_get d)
  also have "ring_view rb (unat (tail rb + get_count rb len)) = rotate ?nb ?V"
    by (rule ring_view_word_add [OF wf])
  also have "rotate ?nb ?V = drop ?nb ?V @ take ?nb ?V"
    using le_trans [OF nle ale] by (intro rotate_le_drop_take) (simp only: lV)
  also have "take (?a - ?nb) (drop ?nb ?V @ take ?nb ?V) = take (?a - ?nb) (drop ?nb ?V)"
    using ale lV by simp
  also have "\<dots> = drop ?nb (take ?a ?V)" by (simp only: drop_take)
  finally show ?thesis by (simp only: contents_view [OF ok])
qed

lemma put_footprint_circ:
  assumes wf: "ring_wf rb"
    and q: "q < cap_bytes rb"
    and p: "(q + cap_bytes rb - slot_off rb (head rb)) mod cap_bytes rb < n * unat (esize rb)"
  shows "put_footprint rb n q"
proof -
  let ?e = "unat (esize rb)" and ?s = "unat (size_rb rb)" and ?S = "cap_bytes rb"
  let ?off = "slot_off rb (head rb)"
  let ?p = "(q + ?S - ?off) mod ?S"
  let ?j = "?p div ?e" and ?r = "?p mod ?e"
  from wf have p2: "power_of_two (size_rb rb)" by (simp add: ring_wf_def)
  have epos: "0 < ?e" by (rule ring_wf_pos(2) [OF wf])
  have off: "?off < ?S" using slot_off_less [OF wf, of "head rb"] epos by simp
  have r: "?r < ?e" using epos by simp
  have j: "?j < n" using p by (simp add: less_mult_imp_div_less)
  have "q = (?off + ?p) mod ?S" by (simp only: circ_back [OF off q])
  also have "?off + ?p = (unat (head rb) mod ?s + ?j) * ?e + ?r"
    by (simp add: slot_off_mod [OF wf] add_mult_distrib)
  also have "\<dots> mod ?S = ((unat (head rb) mod ?s + ?j) mod ?s) * ?e + ?r"
    using scaled_mod [OF r, of "unat (head rb) mod ?s + ?j" ?s] by (simp only: cap_bytes_def)
  also have "(unat (head rb) mod ?s + ?j) mod ?s = (unat (head rb) + ?j) mod ?s"
    by (rule mod_add_left_eq)
  also have "((unat (head rb) + ?j) mod ?s) * ?e = slot_off rb (head rb + word_of_nat ?j)"
    by (simp only: slot_off_mod [OF wf] unat_add_of_nat_mod [OF p2])
  finally have "q = slot_off rb (head rb + word_of_nat ?j) + ?r" .
  then have "slot_off rb (head rb + word_of_nat ?j) \<le> q \<and>
      q < slot_off rb (head rb + word_of_nat ?j) + ?e"
    using r by arith
  with j show ?thesis unfolding put_footprint_def by auto
qed

lemma put_state_frame:
  assumes ok: "ring_ok rb"
    and src: "unat (put_count rb len) * unat (esize rb) \<le> length src"
    and q: "q < length (buffer rb)"
    and out: "\<not> put_footprint rb (unat (put_count rb len)) q"
  shows "buffer (put_state rb src len) ! q = buffer rb ! q"
proof -
  from ok have wf: "ring_wf rb" by (simp add: ring_ok_def)
  have 1: "slot_off rb (head rb) < cap_bytes rb"
    using slot_off_less [OF wf, of "head rb"] ring_wf_pos(2) [OF wf] by simp
  have 2: "cap_bytes rb \<le> length (buffer rb)" using wf by (simp add: ring_wf_def)
  have 3: "unat (put_count rb len) * unat (esize rb) \<le> cap_bytes rb"
    using put_bytes_le [OF ok, of len] by simp
  have 4: "\<not> (q < cap_bytes rb \<and>
      (q + cap_bytes rb - slot_off rb (head rb)) mod cap_bytes rb
        < unat (put_count rb len) * unat (esize rb))"
    using out put_footprint_circ [OF wf] by blast
  show ?thesis
    unfolding put_state_def by (simp add: two_segments_write_nth [OF 1 2 3 src q 4])
qed

section \<open>Initialised and reachable states\<close>

text \<open>
  A successful initialisation of a region that has the size passed to it establishes the
  invariant, and every call that returns preserves it.
\<close>

lemma init_ok:
  assumes init: "ring_buffer_init rb0 buf sz es = Inr (RET_OK, rb)"
    and region: "unat sz \<le> length buf"
  shows "ring_ok rb" and "head rb = 0" and "tail rb = 0" and "size_rb rb = sz div es"
    and "esize rb = es" and "buffer rb = buf"
proof -
  have es: "es \<noteq> 0" using init by (auto simp: ring_buffer_init_def)
  let ?n = "sz div es"
  from init have c: "\<not> ?n < 2" "power_of_two ?n"
    and rb: "rb = rb0\<lparr>buffer := buf, size_rb := ?n, esize := es, head := 0, tail := 0,
                      mask_rb := ?n - 1\<rparr>"
    by (auto simp: ring_buffer_init_cases [OF es] split: if_splits)
  show f: "head rb = 0" "tail rb = 0" "size_rb rb = ?n" "esize rb = es" "buffer rb = buf"
    by (simp_all add: rb)
  have "unat ?n * unat es = unat sz div unat es * unat es" by (simp only: unat_div)
  also have "\<dots> \<le> unat sz" by simp
  finally have cap: "cap_bytes rb \<le> unat sz" by (simp add: cap_bytes_def f)
  have "unat sz < 2 ^ 32" using unat_u32_less [of sz] by simp
  with cap have cap32: "cap_bytes rb < 2 ^ 32" by simp
  have "ring_wf rb"
    unfolding ring_wf_def using c es cap cap32 region
    by (simp add: f not_less) (simp add: rb)
  moreover have "ring_inv rb" by (simp add: ring_inv_def f)
  ultimately show "ring_ok rb" by (simp add: ring_ok_def)
qed

lemma memcpy_length: "memcpy dst d src s n = Inr b \<Longrightarrow> length b = length dst"
  by (auto simp: memcpy_def split: if_splits)

lemma ring_put_Inr:
  assumes "ring_put rb src len = Inr (n, rb')"
  shows "n = put_count rb len"
    and "\<exists>b. length b = length (buffer rb) \<and> rb' = rb\<lparr>buffer := b, head := head rb + n\<rparr>"
proof -
  let ?n = "min_u32 len (ucast (ring_space rb))"
  have c: "?n = put_count rb len"
    by (simp only: put_count_def ring_space_def ucast_size_t_u32)
  obtain off' len' l where sp: "ring_split rb ?n (head rb) = (off', len', l)"
    by (cases "ring_split rb ?n (head rb)") auto
  from assms obtain rb1 where i: "ring_put_internal rb src ?n (head rb) = Inr rb1"
    and r: "n = ?n" "rb' = rb1\<lparr>head := head rb1 + ?n\<rparr>"
    by (auto simp: ring_put_def Let_def split: sum.splits)
  from i obtain b1 b2 where m1: "memcpy (buffer rb) (unat off') src 0 (unat l) = Inr b1"
    and m2: "memcpy b1 0 src (unat l) (unat (len' - l)) = Inr b2"
    and rb1: "rb1 = rb\<lparr>buffer := b2\<rparr>"
    by (auto simp: ring_put_internal_def sp split: sum.splits)
  have "length b2 = length (buffer rb)"
    using memcpy_length [OF m1] memcpy_length [OF m2] by simp
  then show "\<exists>b. length b = length (buffer rb) \<and> rb' = rb\<lparr>buffer := b, head := head rb + n\<rparr>"
    using r rb1 by (intro exI [of _ b2]) simp
  show "n = put_count rb len" using r c by simp
qed

lemma ring_get_Inr:
  assumes "ring_get rb dst len = Inr (n, rb', dst')"
  shows "n = ucast (get_count rb len)" and "rb' = get_state rb len"
proof -
  have c: "min_u32 (ucast (ring_used rb)) len = get_count rb len"
    by (simp only: get_count_def ring_used_def ucast_size_t_u32)
  from assms show "n = ucast (get_count rb len)" and "rb' = get_state rb len"
    by (auto simp: ring_get_def Let_def c get_state_def split: sum.splits)
qed

lemma put_step_ok:
  assumes ok: "ring_ok rb" and put: "ring_put rb src len = Inr (n, rb')"
  shows "ring_ok rb'" and "size_rb rb' = size_rb rb"
proof -
  from ok have wf: "ring_wf rb" and inv: "ring_inv rb" by (simp_all add: ring_ok_def)
  from ring_put_Inr [OF put] obtain b where n: "n = put_count rb len"
    and b: "length b = length (buffer rb)"
    and rb': "rb' = rb\<lparr>buffer := b, head := head rb + n\<rparr>"
    by auto
  show "size_rb rb' = size_rb rb" by (simp add: rb')
  have "ring_wf rb'" using wf b by (simp add: ring_wf_def rb' cap_bytes_def)
  moreover have "ring_inv rb'"
    using put_count_le [OF inv, of len]
    by (simp add: ring_inv_def rb' n word_le_nat_alt used_after_put [OF inv])
  ultimately show "ring_ok rb'" by (simp add: ring_ok_def)
qed

lemma get_step_ok:
  assumes ok: "ring_ok rb" and get: "ring_get rb dst len = Inr (n, rb', dst')"
  shows "ring_ok rb'" and "size_rb rb' = size_rb rb"
  using ring_get_Inr(2) [OF get] get_state_ok [OF ok, of len]
  by (simp_all add: get_state_def)

lemma step_ok:
  assumes ok: "ring_ok rb" and st: "step rb c = Inr rb'"
  shows "ring_ok rb' \<and> size_rb rb' = size_rb rb \<and> esize rb' = esize rb"
proof (cases c)
  case (Put src len)
  with st obtain n where put: "ring_put rb src len = Inr (n, rb')"
    by (auto split: sum.splits)
  from ring_put_Inr(2) [OF put] have "esize rb' = esize rb" by auto
  with put_step_ok [OF ok put] show ?thesis by simp
next
  case (Get dst len)
  with st obtain n dst' where get: "ring_get rb dst len = Inr (n, rb', dst')"
    by (auto split: sum.splits)
  from ring_get_Inr(2) [OF get] have "esize rb' = esize rb" by (simp add: get_state_def)
  with get_step_ok [OF ok get] show ?thesis by simp
qed

lemma step_returns:
  assumes ok: "ring_ok rb" and c: "call_ok (esize rb) c"
  shows "\<exists>rb'. step rb c = Inr rb'"
proof (cases c)
  case (Put src len)
  from ok have inv: "ring_inv rb" by (simp add: ring_ok_def)
  have "unat (put_count rb len) * unat (esize rb) \<le> unat len * unat (esize rb)"
    by (intro mult_le_mono1) (simp add: unat_put_count [OF inv])
  also have "\<dots> \<le> length src" using c Put by simp
  finally show ?thesis using ring_put_eq [OF ok] Put by simp
next
  case (Get dst len)
  have "unat (get_count rb len) * unat (esize rb) \<le> unat len * unat (esize rb)"
    by (intro mult_le_mono1) (simp add: unat_get_count)
  also have "\<dots> \<le> length dst" using c Get by simp
  finally show ?thesis using ring_get_eq [OF ok] Get by simp
qed

lemma run_ok:
  assumes "run rb cs = Inr rb'" and "ring_ok rb"
  shows "ring_ok rb' \<and> size_rb rb' = size_rb rb"
  using assms
proof (induction cs arbitrary: rb)
  case Nil
  then show ?case by simp
next
  case (Cons c cs)
  from Cons.prems(1) obtain rb1 where st: "step rb c = Inr rb1" and r: "run rb1 cs = Inr rb'"
    by (auto split: sum.splits)
  from step_ok [OF Cons.prems(2) st] Cons.IH [OF r] show ?case by simp
qed

lemma run_returns:
  assumes "ring_ok rb" and "\<forall>c \<in> set cs. call_ok (esize rb) c"
  shows "\<exists>rb'. run rb cs = Inr rb'"
  using assms
proof (induction cs arbitrary: rb)
  case Nil
  then show ?case by simp
next
  case (Cons c cs)
  from Cons.prems have "call_ok (esize rb) c" by simp
  from step_returns [OF Cons.prems(1) this] obtain rb1 where st: "step rb c = Inr rb1" ..
  from step_ok [OF Cons.prems(1) st] have ok1: "ring_ok rb1" and e: "esize rb1 = esize rb"
    by simp_all
  from Cons.prems(2) have "\<forall>c \<in> set cs. call_ok (esize rb1) c" by (simp add: e)
  from Cons.IH [OF ok1 this] st show ?case by simp
qed

lemma space_plus_used:
  assumes "ring_inv rb"
  shows "unat (ring_space rb) + unat (ring_used rb) = unat (size_rb rb)"
    and "ring_space rb + ring_used rb = ucast (size_rb rb)"
proof -
  show n: "unat (ring_space rb) + unat (ring_used rb) = unat (size_rb rb)"
    using ring_inv_unat(1) [OF assms]
    by (simp add: unat_ring_space [OF assms] unat_ring_used)
  have "unat (size_rb rb) < 2 ^ LENGTH(64)"
    using unat_u32_less [of "size_rb rb"] by simp
  then have "unat (ring_space rb + ring_used rb) = unat (ring_space rb) + unat (ring_used rb)"
    by (simp only: n [symmetric] unat_add_lem)
  then have "unat (ring_space rb + ring_used rb) = unat (ucast (size_rb rb) :: size_t)"
    by (simp only: n unat_size_t_u32)
  then show "ring_space rb + ring_used rb = ucast (size_rb rb)"
    by (simp only: word_unat_eq_iff)
qed

section \<open>Put, get and the stored sequence\<close>

text \<open>Further facts for the theorems below, and the evaluation of the examples.\<close>

lemma unat_eq_imp_eq: "unat a = unat b \<Longrightarrow> a = b" for a b :: u32
  by (simp only: word_unat_eq_iff)

lemma get_state_fields:
  "size_rb (get_state rb len) = size_rb rb"
  "mask_rb (get_state rb len) = mask_rb rb"
  "esize (get_state rb len) = esize rb"
  "head (get_state rb len) = head rb"
  "tail (get_state rb len) = tail rb + get_count rb len"
  "buffer (get_state rb len) = buffer rb"
  by (simp_all add: get_state_def)

lemma slot_successor:
  assumes wf: "ring_wf rb"
  shows "unat ((i + 1) AND mask_rb rb) = (unat (i AND mask_rb rb) + 1) mod unat (size_rb rb)"
proof -
  from wf have p2: "power_of_two (size_rb rb)" and m: "mask_rb rb = size_rb rb - 1"
    by (simp_all add: ring_wf_def)
  have "unat ((i + 1) AND mask_rb rb) = unat (i + 1) mod unat (size_rb rb)"
    by (simp only: m power_of_two_mask [OF p2])
  also have "\<dots> = (unat i + unat (1::u32)) mod unat (size_rb rb)"
    by (rule unat_add_mod [OF p2])
  also have "\<dots> = (unat i mod unat (size_rb rb) + 1) mod unat (size_rb rb)"
    by (simp add: mod_Suc_eq)
  finally show ?thesis by (simp only: m power_of_two_mask [OF p2])
qed

lemma same_contents_same_used:
  assumes ok: "ring_ok rb" and ok2: "ring_ok rb2"
    and e: "esize rb2 = esize rb" and c: "contents rb2 = contents rb"
  shows "head rb2 - tail rb2 = head rb - tail rb"
proof -
  from ok have wf: "ring_wf rb" by (simp add: ring_ok_def)
  have "unat (head rb2 - tail rb2) * unat (esize rb) = unat (head rb - tail rb) * unat (esize rb)"
    using length_contents [OF ok] length_contents [OF ok2] by (simp only: c e)
  then have "unat (head rb2 - tail rb2) = unat (head rb - tail rb)"
    using ring_wf_pos(2) [OF wf] by simp
  then show ?thesis by (rule unat_eq_imp_eq)
qed

lemma two_segments_write_0:
  assumes "off < S" "S \<le> length buf"
  shows "two_segments_write buf S off src 0 = buf"
  using two_segments_write_cases [OF assms, of 0 src] by simp

lemmas eval_defs = ring_put_def ring_put_internal_def ring_get_def ring_get_internal_def
  ring_split_def memcpy_def min_u32_def ring_space_def ring_used_def example_ring_def Let_def

lemma power_of_two_4: "power_of_two 4"
  unfolding power_of_two_def by (rule bexI [of _ 2]) simp_all

lemma example_ring_ok: "h - t \<le> 4 \<Longrightarrow> ring_ok (example_ring h t)"
  by (simp add: ring_ok_def ring_wf_def ring_inv_def cap_bytes_def example_ring_def power_of_two_4)

section \<open>Put and get: counts, order, invariant and frame\<close>

text \<open>
  Claim C1. On an initialised buffer, with a source that holds the elements to be copied,
  \<^verbatim>\<open>ring_put\<close> returns; the returned count is the minimum of the requested count and of
  \<^verbatim>\<open>ring_space\<close> at the time of the call; \<open>head\<close> advances by exactly that count; the number
  of stored elements grows by that count and stays within the capacity.
\<close>

theorem put_returns_min_of_request_and_space:
  assumes ok: "ring_ok rb"
    and src: "min (unat len) (unat (ring_space rb)) * unat (esize rb) \<le> length src"
  shows "\<exists>n rb'. ring_put rb src len = Inr (n, rb') \<and>
           unat n = min (unat len) (unat (ring_space rb)) \<and>
           head rb' = head rb + n \<and>
           unat n \<le> unat len \<and> unat n \<le> unat (ring_space rb) \<and>
           unat (ring_used rb') = unat (ring_used rb) + unat n \<and>
           unat (ring_used rb') \<le> unat (size_rb rb') \<and>
           length (contents rb') = length (contents rb) + unat n * unat (esize rb)"
proof -
  from ok have inv: "ring_inv rb" by (simp add: ring_ok_def)
  let ?n = "put_count rb len" and ?rb' = "put_state rb src len"
  have n: "unat ?n = min (unat len) (unat (ring_space rb))" by (rule unat_put_count [OF inv])
  have src': "unat ?n * unat (esize rb) \<le> length src" using src by (simp only: n)
  have put: "ring_put rb src len = Inr (?n, ?rb')"
    using ring_put_eq [OF ok src'] by (simp only: put_state_def)
  have ok': "ring_ok ?rb'" by (rule put_state_ok [OF ok src'])
  have used: "unat (ring_used ?rb') = unat (ring_used rb) + unat ?n"
    by (simp only: unat_ring_used put_state_fields used_after_put [OF inv])
  have le: "unat (ring_used ?rb') \<le> unat (size_rb ?rb')"
    using put_count_le [OF inv, of len]
    by (simp only: unat_ring_used put_state_fields used_after_put [OF inv])
  have len: "length (contents ?rb') = length (contents rb) + unat ?n * unat (esize rb)"
    using src' by (simp add: put_state_contents [OF ok src'])
  show ?thesis
    using put n used le len by (intro exI [of _ ?n] exI [of _ ?rb']) (simp add: put_state_fields)
qed

text \<open>Three elements stored, one slot free, a request for three: one element is written.\<close>

theorem put_returns_min_of_request_and_space_witness:
  "ring_ok (example_ring 3 0) \<and>
   min (unat (3::u32)) (unat (ring_space (example_ring 3 0))) * unat (esize (example_ring 3 0))
     \<le> length [1, 2, 3, 4, 5, 6 :: byte] \<and>
   ring_put (example_ring 3 0) [1, 2, 3, 4, 5, 6] 3 =
     Inr (1, \<lparr>buffer = [10, 11, 12, 13, 14, 15, 1, 2], size_rb = 4, mask_rb = 3, esize = 2,
              head = 4, tail = 0\<rparr>)"
proof -
  have ok: "ring_ok (example_ring 3 0)" by (rule example_ring_ok) simp
  have src: "min (unat (3::u32)) (unat (ring_space (example_ring 3 0))) *
      unat (esize (example_ring 3 0)) \<le> length [1, 2, 3, 4, 5, 6 :: byte]"
    by (simp add: eval_defs)
  from put_returns_min_of_request_and_space [OF ok src] ok src show ?thesis
    by (simp add: eval_defs)
qed

text \<open>
  Claim C2. On an initialised buffer, with a destination that has room for the elements
  to be copied, \<^verbatim>\<open>ring_get\<close> returns; the returned count is the minimum of the requested
  count and of \<^verbatim>\<open>ring_used\<close> at the time of the call; \<open>tail\<close> advances by exactly that count.
  Reading from an empty buffer returns 0, and writing to a full buffer returns 0.
\<close>

theorem get_returns_min_of_request_and_used:
  assumes ok: "ring_ok rb"
    and dst: "min (unat len) (unat (ring_used rb)) * unat (esize rb) \<le> length dst"
  shows "\<exists>n rb' dst'. ring_get rb dst len = Inr (n, rb', dst') \<and>
           unat n = min (unat len) (unat (ring_used rb)) \<and>
           tail rb' = tail rb + ucast n \<and>
           unat (ring_used rb') = unat (ring_used rb) - unat n \<and>
           (ring_used rb = 0 \<longrightarrow> n = 0) \<and>
           (ring_space rb = 0 \<longrightarrow> (\<exists>rb''. ring_put rb src len = Inr (0, rb'')))"
proof -
  from ok have inv: "ring_inv rb" by (simp add: ring_ok_def)
  let ?n = "get_count rb len" and ?rb' = "get_state rb len"
  let ?dst' = "take (unat ?n * unat (esize rb)) (contents rb) @ drop (unat ?n * unat (esize rb)) dst"
  have n: "unat ?n = min (unat len) (unat (ring_used rb))" by (rule unat_get_count)
  have dst': "unat ?n * unat (esize rb) \<le> length dst" using dst by (simp only: n)
  have get: "ring_get rb dst len = Inr (ucast ?n, ?rb', ?dst')"
    using ring_get_eq [OF ok dst'] by (simp only: get_state_def)
  have n64: "unat (ucast ?n :: size_t) = min (unat len) (unat (ring_used rb))"
    by (simp only: unat_size_t_u32 n)
  have t: "tail ?rb' = tail rb + ucast (ucast ?n :: size_t)"
    by (simp add: get_state_def ucast_size_t_u32)
  have used: "unat (ring_used ?rb') = unat (ring_used rb) - unat (ucast ?n :: size_t)"
    by (simp add: unat_ring_used unat_size_t_u32 get_state_def used_after_get)
  have empty: "ring_used rb = 0 \<longrightarrow> (ucast ?n :: size_t) = 0"
  proof
    assume "ring_used rb = 0"
    then have "unat (ucast ?n :: size_t) = 0" by (simp add: n64)
    then show "(ucast ?n :: size_t) = 0" by (simp only: unat_eq_0)
  qed
  have full: "ring_space rb = 0 \<longrightarrow> (\<exists>rb''. ring_put rb src len = Inr (0, rb''))"
  proof
    assume "ring_space rb = 0"
    then have "unat (put_count rb len) = 0" by (simp add: unat_put_count [OF inv])
    then have z: "put_count rb len = 0" by (simp only: unat_eq_0)
    then have "unat (put_count rb len) * unat (esize rb) \<le> length src" by simp
    from ring_put_eq [OF ok this] show "\<exists>rb''. ring_put rb src len = Inr (0, rb'')"
      by (simp add: z)
  qed
  show ?thesis
    using get n64 t used empty full
    by (intro exI [of _ "ucast ?n"] exI [of _ ?rb'] exI [of _ ?dst']) (simp only: simp_thms)
qed

text \<open>Two elements stored, a request for three; then a read from the empty buffer.\<close>

theorem get_returns_min_of_request_and_used_witness:
  "ring_ok (example_ring 2 0) \<and>
   min (unat (3::u32)) (unat (ring_used (example_ring 2 0))) * unat (esize (example_ring 2 0))
     \<le> length [0, 0, 0, 0, 0, 0 :: byte] \<and>
   ring_get (example_ring 2 0) [0, 0, 0, 0, 0, 0] 3 =
     Inr (2, example_ring 2 2, [10, 11, 12, 13, 0, 0]) \<and>
   ring_get (example_ring 2 2) [0, 0] 1 = Inr (0, example_ring 2 2, [0, 0])"
proof -
  have ok: "ring_ok (example_ring 2 0)" by (rule example_ring_ok) simp
  have dst: "min (unat (3::u32)) (unat (ring_used (example_ring 2 0))) *
      unat (esize (example_ring 2 0)) \<le> length [0, 0, 0, 0, 0, 0 :: byte]"
    by (simp add: eval_defs)
  from get_returns_min_of_request_and_used [OF ok dst, of "[]"] ok dst show ?thesis
    by (simp add: eval_defs)
qed

text \<open>
  Claim C3. On an initialised buffer that is empty (\<open>head = tail\<close>, at any position of the
  counters, so that the copy may wrap around the end of the region), a put of at most
  \<open>capacity\<close> elements followed by a get of the same count returns the same bytes in the
  same order, and leaves the buffer empty.
\<close>

theorem put_get_round_trip:
  assumes ok: "ring_ok rb"
    and empty: "head rb = tail rb"
    and len: "unat len \<le> unat (size_rb rb)"
    and src: "length src = unat len * unat (esize rb)"
    and dst: "unat len * unat (esize rb) \<le> length dst"
  shows "\<exists>rb1 rb2. ring_put rb src len = Inr (len, rb1) \<and>
           ring_get rb1 dst len = Inr (ucast len, rb2, src @ drop (length src) dst) \<and>
           head rb2 = tail rb2"
proof -
  from ok have inv: "ring_inv rb" by (simp add: ring_ok_def)
  let ?e = "unat (esize rb)"
  let ?rb1 = "put_state rb src len"
  let ?rb2 = "get_state ?rb1 len"
  have u0: "unat (head rb - tail rb) = 0" using empty by simp
  have "unat (put_count rb len) = unat len"
    using len by (simp add: unat_put_count [OF inv] unat_ring_space [OF inv] u0)
  then have pc: "put_count rb len = len" by (rule unat_eq_imp_eq)
  have src': "unat (put_count rb len) * ?e \<le> length src" by (simp add: pc src)
  have put: "ring_put rb src len = Inr (len, ?rb1)"
    using ring_put_eq [OF ok src'] by (simp only: put_state_def pc)
  have ok1: "ring_ok ?rb1" by (rule put_state_ok [OF ok src'])
  have "length (contents rb) = 0" by (simp only: length_contents [OF ok] u0 mult_0)
  then have c1: "contents ?rb1 = src"
    by (simp add: put_state_contents [OF ok src'] pc src)
  have h1: "head ?rb1 - tail ?rb1 = len" by (simp add: put_state_fields pc empty)
  have gc: "get_count ?rb1 len = len" by (simp add: get_count_def h1 min_u32_def)
  have dst': "unat (get_count ?rb1 len) * unat (esize ?rb1) \<le> length dst"
    using dst by (simp add: gc put_state_fields)
  have get: "ring_get ?rb1 dst len = Inr (ucast len, ?rb2, src @ drop (length src) dst)"
    using ring_get_eq [OF ok1 dst'] by (simp add: gc c1 put_state_fields src get_state_def)
  have "head ?rb2 = tail ?rb2"
    by (simp add: get_state_def gc put_state_fields pc empty)
  with put get show ?thesis by blast
qed

text \<open>Three elements written at slot 3 of 4: the copy wraps after the first element.\<close>

theorem put_get_round_trip_witness:
  "ring_ok (example_ring 3 3) \<and> head (example_ring 3 3) = tail (example_ring 3 3) \<and>
   unat (3::u32) \<le> unat (size_rb (example_ring 3 3)) \<and>
   length [1, 2, 3, 4, 5, 6 :: byte] = unat (3::u32) * unat (esize (example_ring 3 3)) \<and>
   unat (3::u32) * unat (esize (example_ring 3 3)) \<le> length [0, 0, 0, 0, 0, 0 :: byte] \<and>
   ring_put (example_ring 3 3) [1, 2, 3, 4, 5, 6] 3 =
     Inr (3, \<lparr>buffer = [3, 4, 5, 6, 14, 15, 1, 2], size_rb = 4, mask_rb = 3, esize = 2,
              head = 6, tail = 3\<rparr>) \<and>
   ring_get \<lparr>buffer = [3, 4, 5, 6, 14, 15, 1, 2], size_rb = 4, mask_rb = 3, esize = 2,
              head = 6, tail = 3\<rparr> [0, 0, 0, 0, 0, 0] 3 =
     Inr (3, \<lparr>buffer = [3, 4, 5, 6, 14, 15, 1, 2], size_rb = 4, mask_rb = 3, esize = 2,
              head = 6, tail = 6\<rparr>, [1, 2, 3, 4, 5, 6])"
proof -
  have ok: "ring_ok (example_ring 3 3)" by (rule example_ring_ok) simp
  have e: "head (example_ring 3 3) = tail (example_ring 3 3)" by (simp add: example_ring_def)
  have n: "unat (3::u32) \<le> unat (size_rb (example_ring 3 3))" by (simp add: example_ring_def)
  have src: "length [1, 2, 3, 4, 5, 6 :: byte] = unat (3::u32) * unat (esize (example_ring 3 3))"
    by (simp add: example_ring_def)
  have dst: "unat (3::u32) * unat (esize (example_ring 3 3)) \<le> length [0, 0, 0, 0, 0, 0 :: byte]"
    by (simp add: example_ring_def)
  from put_get_round_trip [OF ok e n src dst] ok e n src dst show ?thesis
    by (simp add: eval_defs)
qed

text \<open>
  Claim C4. After a successful initialisation (of a region that has the size passed to
  it) and any sequence of calls of \<^verbatim>\<open>ring_put\<close> and \<^verbatim>\<open>ring_get\<close>, \<open>head - tail\<close>
  (subtraction of \<^verbatim>\<open>uint32_t\<close>) is at most the capacity, and \<^verbatim>\<open>ring_space\<close> plus
  \<^verbatim>\<open>ring_used\<close> is the capacity, as numbers and at \<^verbatim>\<open>size_t\<close>; the capacity is the one
  computed by the initialisation, a power of two that is at least 2. The statement is for
  every sequence, hence for each of its prefixes: it holds before and after every call.
  A sequence whose calls keep the caller's part of the contract has no fault.
\<close>

theorem invariant_in_every_reachable_state:
  assumes init: "ring_buffer_init rb0 buf sz es = Inr (RET_OK, rb)"
    and region: "unat sz \<le> length buf"
  shows "(\<forall>rb'. run rb cs = Inr rb' \<longrightarrow>
            head rb' - tail rb' \<le> size_rb rb' \<and>
            unat (ring_space rb') + unat (ring_used rb') = unat (size_rb rb') \<and>
            ring_space rb' + ring_used rb' = ucast (size_rb rb') \<and>
            size_rb rb' = sz div es \<and> power_of_two (size_rb rb') \<and> 2 \<le> size_rb rb' \<and>
            ring_ok rb') \<and>
         ((\<forall>c \<in> set cs. call_ok es c) \<longrightarrow> (\<exists>rb'. run rb cs = Inr rb'))"
proof -
  note i = init_ok [OF init region]
  have A: "head rb' - tail rb' \<le> size_rb rb' \<and>
            unat (ring_space rb') + unat (ring_used rb') = unat (size_rb rb') \<and>
            ring_space rb' + ring_used rb' = ucast (size_rb rb') \<and>
            size_rb rb' = sz div es \<and> power_of_two (size_rb rb') \<and> 2 \<le> size_rb rb' \<and>
            ring_ok rb'"
    if r: "run rb cs = Inr rb'" for rb'
  proof -
    from run_ok [OF r i(1)] have ok': "ring_ok rb'" and sz: "size_rb rb' = size_rb rb"
      by simp_all
    then have inv: "ring_inv rb'" and wf: "ring_wf rb'" by (simp_all add: ring_ok_def)
    show ?thesis
      using inv wf ok' space_plus_used [OF inv] sz i(4)
      by (simp add: ring_inv_def ring_wf_def)
  qed
  have B: "\<exists>rb'. run rb cs = Inr rb'" if "\<forall>c \<in> set cs. call_ok es c"
    using run_returns [OF i(1), of cs] that by (simp add: i(5))
  from A B show ?thesis by blast
qed

text \<open>The initialisation of \<^verbatim>\<open>main.c\<close>, a put of three elements and a get of one.\<close>

theorem invariant_in_every_reachable_state_witness:
  "ring_buffer_init \<lparr>buffer = [], size_rb = 0, mask_rb = 0, esize = 0, head = 0, tail = 0\<rparr>
     [10, 11, 12, 13, 14, 15, 16, 17] 8 2 = Inr (RET_OK, example_ring 0 0) \<and>
   unat (8::u32) \<le> length [10, 11, 12, 13, 14, 15, 16, 17 :: byte] \<and>
   call_ok 2 (Put [10, 11, 12, 13, 14, 15] 3) \<and> call_ok 2 (Get [0, 0] 1) \<and>
   run (example_ring 0 0) [Put [10, 11, 12, 13, 14, 15] 3, Get [0, 0] 1] =
     Inr (example_ring 3 1) \<and>
   head (example_ring 3 1) - tail (example_ring 3 1) \<le> size_rb (example_ring 3 1) \<and>
   ring_space (example_ring 3 1) = 2 \<and> ring_used (example_ring 3 1) = 2"
proof -
  have init: "ring_buffer_init \<lparr>buffer = [], size_rb = 0, mask_rb = 0, esize = 0, head = 0, tail = 0\<rparr>
     [10, 11, 12, 13, 14, 15, 16, 17] 8 2 = Inr (RET_OK, example_ring 0 0)"
    by (simp add: ring_buffer_init_def example_ring_def Let_def)
  have region: "unat (8::u32) \<le> length [10, 11, 12, 13, 14, 15, 16, 17 :: byte]" by simp
  have r: "run (example_ring 0 0) [Put [10, 11, 12, 13, 14, 15] 3, Get [0, 0] 1] =
      Inr (example_ring 3 1)"
    by (simp add: eval_defs)
  from invariant_in_every_reachable_state [OF init region,
      of "[Put [10, 11, 12, 13, 14, 15] 3, Get [0, 0] 1]"] init region r
  show ?thesis by (simp add: eval_defs)
qed

text \<open>
  Claim C5. The counters are \<^verbatim>\<open>uint32_t\<close> and wrap modulo \<open>2 ^ 32\<close>. For every state that
  satisfies the invariant, whatever the values of \<open>head\<close> and \<open>tail\<close> (also next to
  \<open>2 ^ 32 - 1\<close>, and when \<open>head\<close> has wrapped and \<open>tail\<close> has not): \<open>head - tail\<close> is the
  number of stored elements; \<open>i & mask\<close> is \<open>i\<close> modulo the capacity, and the slot of \<open>i + 1\<close>
  is the next slot modulo the capacity, also when \<open>i + 1\<close> wraps to 0; a put appends the
  written elements to the stored sequence and a get removes and returns its first
  elements, with the counts of C1 and C2; and two buffers of the same capacity and element
  size with the same stored sequence return the same counts and the same data, wherever
  their counters are.
\<close>

theorem index_overflow:
  assumes ok: "ring_ok rb"
    and src: "unat len * unat (esize rb) \<le> length src"
    and dst: "unat len * unat (esize rb) \<le> length dst"
  shows "length (contents rb) = unat (head rb - tail rb) * unat (esize rb) \<and>
         (\<forall>i. unat (i AND mask_rb rb) = unat i mod unat (size_rb rb) \<and>
              unat ((i + 1) AND mask_rb rb) = (unat (i AND mask_rb rb) + 1) mod unat (size_rb rb)) \<and>
         (\<exists>n rb'. ring_put rb src len = Inr (n, rb') \<and>
            unat n = min (unat len) (unat (size_rb rb) - unat (head rb - tail rb)) \<and>
            ring_ok rb' \<and> head rb' = head rb + n \<and> tail rb' = tail rb \<and>
            unat (head rb' - tail rb') = unat (head rb - tail rb) + unat n \<and>
            contents rb' = contents rb @ take (unat n * unat (esize rb)) src) \<and>
         (\<exists>n rb' dst'. ring_get rb dst len = Inr (n, rb', dst') \<and>
            unat n = min (unat len) (unat (head rb - tail rb)) \<and>
            ring_ok rb' \<and> head rb' = head rb \<and> tail rb' = tail rb + ucast n \<and>
            unat (head rb' - tail rb') = unat (head rb - tail rb) - unat n \<and>
            dst' = take (unat n * unat (esize rb)) (contents rb) @
                   drop (unat n * unat (esize rb)) dst \<and>
            contents rb' = drop (unat n * unat (esize rb)) (contents rb)) \<and>
         (\<forall>rb2. ring_ok rb2 \<and> size_rb rb2 = size_rb rb \<and> esize rb2 = esize rb \<and>
                contents rb2 = contents rb \<longrightarrow>
            (\<exists>n r r2. ring_put rb src len = Inr (n, r) \<and> ring_put rb2 src len = Inr (n, r2) \<and>
                       contents r2 = contents r) \<and>
            (\<exists>n r r2 d. ring_get rb dst len = Inr (n, r, d) \<and>
                         ring_get rb2 dst len = Inr (n, r2, d) \<and> contents r2 = contents r))"
proof -
  from ok have wf: "ring_wf rb" and inv: "ring_inv rb" by (simp_all add: ring_ok_def)
  from wf have p2: "power_of_two (size_rb rb)" and m: "mask_rb rb = size_rb rb - 1"
    by (simp_all add: ring_wf_def)
  let ?e = "unat (esize rb)"
  have A: "length (contents rb) = unat (head rb - tail rb) * ?e" by (rule length_contents [OF ok])
  have B: "\<forall>i. unat (i AND mask_rb rb) = unat i mod unat (size_rb rb) \<and>
      unat ((i + 1) AND mask_rb rb) = (unat (i AND mask_rb rb) + 1) mod unat (size_rb rb)"
    using slot_successor [OF wf] by (simp add: m power_of_two_mask [OF p2])
  let ?n = "put_count rb len" and ?rb' = "put_state rb src len"
  have n: "unat ?n = min (unat len) (unat (size_rb rb) - unat (head rb - tail rb))"
    by (simp only: unat_put_count [OF inv] unat_ring_space [OF inv])
  have "unat ?n * ?e \<le> unat len * ?e" by (intro mult_le_mono1) (simp add: n)
  then have src': "unat ?n * ?e \<le> length src" using src by (rule le_trans)
  have put: "ring_put rb src len = Inr (?n, ?rb')"
    using ring_put_eq [OF ok src'] by (simp only: put_state_def)
  have C: "\<exists>n rb'. ring_put rb src len = Inr (n, rb') \<and>
            unat n = min (unat len) (unat (size_rb rb) - unat (head rb - tail rb)) \<and>
            ring_ok rb' \<and> head rb' = head rb + n \<and> tail rb' = tail rb \<and>
            unat (head rb' - tail rb') = unat (head rb - tail rb) + unat n \<and>
            contents rb' = contents rb @ take (unat n * ?e) src"
    using put n put_state_ok [OF ok src'] used_after_put [OF inv, of len]
      put_state_contents [OF ok src']
    by (intro exI [of _ ?n] exI [of _ ?rb']) (simp add: put_state_fields)
  let ?g = "get_count rb len" and ?rb'' = "get_state rb len"
  let ?d = "take (unat ?g * ?e) (contents rb) @ drop (unat ?g * ?e) dst"
  have g: "unat ?g = min (unat len) (unat (head rb - tail rb))"
    by (simp only: unat_get_count unat_ring_used)
  have "unat ?g * ?e \<le> unat len * ?e" by (intro mult_le_mono1) (simp add: g)
  then have dst': "unat ?g * ?e \<le> length dst" using dst by (rule le_trans)
  have get: "ring_get rb dst len = Inr (ucast ?g, ?rb'', ?d)"
    using ring_get_eq [OF ok dst'] by (simp only: get_state_def)
  have D: "\<exists>n rb' dst'. ring_get rb dst len = Inr (n, rb', dst') \<and>
            unat n = min (unat len) (unat (head rb - tail rb)) \<and>
            ring_ok rb' \<and> head rb' = head rb \<and> tail rb' = tail rb + ucast n \<and>
            unat (head rb' - tail rb') = unat (head rb - tail rb) - unat n \<and>
            dst' = take (unat n * ?e) (contents rb) @ drop (unat n * ?e) dst \<and>
            contents rb' = drop (unat n * ?e) (contents rb)"
    using get g get_state_ok [OF ok, of len] used_after_get [of rb len]
      get_state_contents [OF ok, of len]
    by (intro exI [of _ "ucast ?g"] exI [of _ ?rb''] exI [of _ ?d])
       (simp add: unat_size_t_u32 ucast_size_t_u32 get_state_fields)
  have E: "(\<exists>n r r2. ring_put rb src len = Inr (n, r) \<and> ring_put rb2 src len = Inr (n, r2) \<and>
                       contents r2 = contents r) \<and>
           (\<exists>n r r2 d. ring_get rb dst len = Inr (n, r, d) \<and>
                         ring_get rb2 dst len = Inr (n, r2, d) \<and> contents r2 = contents r)"
    if ok2: "ring_ok rb2" and s2: "size_rb rb2 = size_rb rb" and e2: "esize rb2 = esize rb"
      and c2: "contents rb2 = contents rb" for rb2
  proof -
    have u2: "head rb2 - tail rb2 = head rb - tail rb"
      by (rule same_contents_same_used [OF ok ok2 e2 c2])
    have pc: "put_count rb2 len = ?n" by (simp only: put_count_def u2 s2)
    have gc: "get_count rb2 len = ?g" by (simp only: get_count_def u2)
    have src2: "unat (put_count rb2 len) * unat (esize rb2) \<le> length src"
      using src' by (simp only: pc e2)
    have dst2: "unat (get_count rb2 len) * unat (esize rb2) \<le> length dst"
      using dst' by (simp only: gc e2)
    have put2: "ring_put rb2 src len = Inr (?n, put_state rb2 src len)"
      using ring_put_eq [OF ok2 src2] by (simp only: put_state_def pc)
    have "contents (put_state rb2 src len) = contents ?rb'"
      by (simp only: put_state_contents [OF ok2 src2] put_state_contents [OF ok src'] pc e2 c2)
    with put put2 have P: "\<exists>n r r2. ring_put rb src len = Inr (n, r) \<and>
        ring_put rb2 src len = Inr (n, r2) \<and> contents r2 = contents r"
      by blast
    have get2: "ring_get rb2 dst len = Inr (ucast ?g, get_state rb2 len, ?d)"
      using ring_get_eq [OF ok2 dst2] by (simp only: get_state_def gc e2 c2)
    have "contents (get_state rb2 len) = contents ?rb''"
      by (simp only: get_state_contents [OF ok2] get_state_contents [OF ok] gc e2 c2)
    with get get2 have G: "\<exists>n r r2 d. ring_get rb dst len = Inr (n, r, d) \<and>
        ring_get rb2 dst len = Inr (n, r2, d) \<and> contents r2 = contents r"
      by blast
    from P G show ?thesis ..
  qed
  from A B C D E show ?thesis by (intro conjI allI impI) blast+
qed

text \<open>
  \<open>head = 2 ^ 32 - 2\<close> and \<open>tail = 2 ^ 32 - 3\<close>: a put of three elements takes \<open>head\<close> to 1,
  across the overflow.
\<close>

theorem index_overflow_witness:
  "ring_ok (example_ring 0xFFFFFFFE 0xFFFFFFFD) \<and>
   unat (4::u32) * unat (esize (example_ring 0xFFFFFFFE 0xFFFFFFFD))
     \<le> length [1, 2, 3, 4, 5, 6, 7, 8 :: byte] \<and>
   unat (4::u32) * unat (esize (example_ring 0xFFFFFFFE 0xFFFFFFFD))
     \<le> length [0, 0, 0, 0, 0, 0, 0, 0 :: byte] \<and>
   contents (example_ring 0xFFFFFFFE 0xFFFFFFFD) = [12, 13] \<and>
   ring_put (example_ring 0xFFFFFFFE 0xFFFFFFFD) [1, 2, 3, 4, 5, 6, 7, 8] 4 =
     Inr (3, \<lparr>buffer = [5, 6, 12, 13, 1, 2, 3, 4], size_rb = 4, mask_rb = 3, esize = 2,
              head = 1, tail = 0xFFFFFFFD\<rparr>) \<and>
   contents \<lparr>buffer = [5, 6, 12, 13, 1, 2, 3, 4], size_rb = 4, mask_rb = 3, esize = 2,
              head = 1, tail = 0xFFFFFFFD\<rparr> = [12, 13, 1, 2, 3, 4, 5, 6] \<and>
   ring_get (example_ring 0xFFFFFFFE 0xFFFFFFFD) [0, 0, 0, 0, 0, 0, 0, 0] 4 =
     Inr (1, example_ring 0xFFFFFFFE 0xFFFFFFFE, [12, 13, 0, 0, 0, 0, 0, 0])"
proof -
  have ok: "ring_ok (example_ring 0xFFFFFFFE 0xFFFFFFFD)" by (rule example_ring_ok) simp
  have src: "unat (4::u32) * unat (esize (example_ring 0xFFFFFFFE 0xFFFFFFFD))
      \<le> length [1, 2, 3, 4, 5, 6, 7, 8 :: byte]"
    by (simp add: example_ring_def)
  have dst: "unat (4::u32) * unat (esize (example_ring 0xFFFFFFFE 0xFFFFFFFD))
      \<le> length [0, 0, 0, 0, 0, 0, 0, 0 :: byte]"
    by (simp add: example_ring_def)
  have c: "contents (example_ring 0xFFFFFFFE 0xFFFFFFFD) = [12, 13]"
    by (simp add: contents_def slot_def slot_off_def example_ring_def upt_rec)
  have c': "contents \<lparr>buffer = [5, 6, 12, 13, 1, 2, 3, 4], size_rb = 4, mask_rb = 3, esize = 2,
              head = 1, tail = 0xFFFFFFFD\<rparr> = [12, 13, 1, 2, 3, 4, 5, 6]"
    by (simp add: contents_def slot_def slot_off_def upt_rec)
  from index_overflow [OF ok src dst] ok src dst c c' show ?thesis
    by (simp add: eval_defs)
qed

text \<open>
  Claim C8. \<^verbatim>\<open>ring_put\<close> leaves \<open>tail\<close>, the capacity, the mask and the element size as
  they are, keeps the length of the region, and changes no byte of the region outside the
  slots of the logical indices \<open>head, ..., head + n - 1\<close>, where \<open>n\<close> is the returned count.
  \<^verbatim>\<open>ring_get\<close> changes \<open>tail\<close> only: \<open>head\<close> and every byte of the region are as before.
  \<^verbatim>\<open>ring_space\<close> and \<^verbatim>\<open>ring_used\<close> take the structure through a pointer to \<^verbatim>\<open>const\<close> and
  return a number: as functions from the structure to a \<^verbatim>\<open>size_t\<close> they have no state to
  change.
\<close>

theorem put_and_get_frame:
  assumes ok: "ring_ok rb"
    and src: "min (unat len) (unat (ring_space rb)) * unat (esize rb) \<le> length src"
    and dst: "min (unat len) (unat (ring_used rb)) * unat (esize rb) \<le> length dst"
  shows "(\<exists>n rb'. ring_put rb src len = Inr (n, rb') \<and>
            tail rb' = tail rb \<and> size_rb rb' = size_rb rb \<and> mask_rb rb' = mask_rb rb \<and>
            esize rb' = esize rb \<and> head rb' = head rb + n \<and>
            length (buffer rb') = length (buffer rb) \<and>
            (\<forall>q < length (buffer rb).
               \<not> put_footprint rb (unat n) q \<longrightarrow> buffer rb' ! q = buffer rb ! q)) \<and>
         (\<exists>n rb' dst'. ring_get rb dst len = Inr (n, rb', dst') \<and>
            rb' = rb\<lparr>tail := tail rb + ucast n\<rparr> \<and>
            head rb' = head rb \<and> buffer rb' = buffer rb)"
proof -
  from ok have inv: "ring_inv rb" by (simp add: ring_ok_def)
  let ?e = "unat (esize rb)"
  let ?n = "put_count rb len" and ?rb' = "put_state rb src len"
  have src': "unat ?n * ?e \<le> length src" using src by (simp only: unat_put_count [OF inv])
  have put: "ring_put rb src len = Inr (?n, ?rb')"
    using ring_put_eq [OF ok src'] by (simp only: put_state_def)
  have A: "\<exists>n rb'. ring_put rb src len = Inr (n, rb') \<and>
            tail rb' = tail rb \<and> size_rb rb' = size_rb rb \<and> mask_rb rb' = mask_rb rb \<and>
            esize rb' = esize rb \<and> head rb' = head rb + n \<and>
            length (buffer rb') = length (buffer rb) \<and>
            (\<forall>q < length (buffer rb).
               \<not> put_footprint rb (unat n) q \<longrightarrow> buffer rb' ! q = buffer rb ! q)"
    using put put_state_length [OF ok src'] put_state_frame [OF ok src']
    by (intro exI [of _ ?n] exI [of _ ?rb']) (simp add: put_state_fields)
  let ?g = "get_count rb len" and ?rb'' = "get_state rb len"
  have dst': "unat ?g * ?e \<le> length dst" using dst by (simp only: unat_get_count)
  have get: "ring_get rb dst len =
      Inr (ucast ?g, ?rb'', take (unat ?g * ?e) (contents rb) @ drop (unat ?g * ?e) dst)"
    using ring_get_eq [OF ok dst'] by (simp only: get_state_def)
  have B: "\<exists>n rb' dst'. ring_get rb dst len = Inr (n, rb', dst') \<and>
            rb' = rb\<lparr>tail := tail rb + ucast n\<rparr> \<and>
            head rb' = head rb \<and> buffer rb' = buffer rb"
    using get
    by (intro exI [of _ "ucast ?g"] exI [of _ ?rb''] exI [of _ "take (unat ?g * ?e) (contents rb) @ drop (unat ?g * ?e) dst"])
       (simp add: ucast_size_t_u32 get_state_def)
  from A B show ?thesis ..
qed

text \<open>The put writes the bytes 6 and 7 of the region only; the get changes \<open>tail\<close> only.\<close>

theorem put_and_get_frame_witness:
  "ring_ok (example_ring 3 0) \<and>
   min (unat (3::u32)) (unat (ring_space (example_ring 3 0))) * unat (esize (example_ring 3 0))
     \<le> length [1, 2, 3, 4, 5, 6 :: byte] \<and>
   min (unat (3::u32)) (unat (ring_used (example_ring 3 0))) * unat (esize (example_ring 3 0))
     \<le> length [0, 0, 0, 0, 0, 0 :: byte] \<and>
   ring_put (example_ring 3 0) [1, 2, 3, 4, 5, 6] 3 =
     Inr (1, \<lparr>buffer = [10, 11, 12, 13, 14, 15, 1, 2], size_rb = 4, mask_rb = 3, esize = 2,
              head = 4, tail = 0\<rparr>) \<and>
   ring_get (example_ring 3 0) [0, 0, 0, 0, 0, 0] 3 =
     Inr (3, example_ring 3 3, [10, 11, 12, 13, 14, 15])"
proof -
  have ok: "ring_ok (example_ring 3 0)" by (rule example_ring_ok) simp
  have src: "min (unat (3::u32)) (unat (ring_space (example_ring 3 0))) *
      unat (esize (example_ring 3 0)) \<le> length [1, 2, 3, 4, 5, 6 :: byte]"
    by (simp add: eval_defs)
  have dst: "min (unat (3::u32)) (unat (ring_used (example_ring 3 0))) *
      unat (esize (example_ring 3 0)) \<le> length [0, 0, 0, 0, 0, 0 :: byte]"
    by (simp add: eval_defs)
  from put_and_get_frame [OF ok src dst] ok src dst show ?thesis
    by (simp add: eval_defs)
qed

text \<open>
  Claim C9. On an initialised buffer, a put of 0 elements returns 0 and leaves the whole
  structure, the region included, as it is; a get of 0 elements returns 0 and leaves the
  structure and the destination as they are.
\<close>

theorem zero_count_changes_nothing:
  assumes ok: "ring_ok rb"
  shows "ring_put rb src 0 = Inr (0, rb) \<and> ring_get rb dst 0 = Inr (0, rb, dst)"
proof -
  from ok have wf: "ring_wf rb" by (simp add: ring_ok_def)
  have pc: "put_count rb 0 = 0" by (simp add: put_count_def min_u32_def word_gt_0)
  have gc: "get_count rb 0 = 0" by (simp add: get_count_def min_u32_def word_gt_0)
  have 1: "slot_off rb (head rb) < cap_bytes rb"
    using slot_off_less [OF wf, of "head rb"] ring_wf_pos(2) [OF wf] by simp
  have 2: "cap_bytes rb \<le> length (buffer rb)" using wf by (simp add: ring_wf_def)
  have "unat (put_count rb 0) * unat (esize rb) \<le> length src" by (simp add: pc)
  from ring_put_eq [OF ok this] have put: "ring_put rb src 0 = Inr (0, rb)"
    by (simp add: pc two_segments_write_0 [OF 1 2])
  have "unat (get_count rb 0) * unat (esize rb) \<le> length dst" by (simp add: gc)
  from ring_get_eq [OF ok this] have get: "ring_get rb dst 0 = Inr (0, rb, dst)"
    by (simp add: gc)
  from put get show ?thesis ..
qed

text \<open>A buffer with two stored elements.\<close>

theorem zero_count_changes_nothing_witness:
  "ring_ok (example_ring 3 1) \<and>
   ring_put (example_ring 3 1) [] 0 = Inr (0, example_ring 3 1) \<and>
   ring_get (example_ring 3 1) [] 0 = Inr (0, example_ring 3 1, [])"
proof -
  have ok: "ring_ok (example_ring 3 1)" by (rule example_ring_ok) simp
  from zero_count_changes_nothing [OF ok, of "[]" "[]"] ok show ?thesis by simp
qed

section \<open>The copy segments\<close>

text \<open>
  What one \<^verbatim>\<open>memcpy\<close> that returns does to its destination, and from it what the two
  copies of \<^verbatim>\<open>__ring_put\<close> and of \<^verbatim>\<open>__ring_get\<close> do, byte by byte.
\<close>

lemma memcpy_nth:
  assumes m: "memcpy dst d src s n = Inr b"
  shows "length b = length dst"
    and "\<And>i. i < n \<Longrightarrow> b ! (d + i) = src ! (s + i)"
    and "\<And>q. q < length dst \<Longrightarrow> \<not> (d \<le> q \<and> q < d + n) \<Longrightarrow> b ! q = dst ! q"
proof -
  let ?A = "take d dst" and ?M = "take n (drop s src)" and ?Z = "drop (d + n) dst"
  from m have dn: "d + n \<le> length dst" and sn: "s + n \<le> length src"
    and b: "b = ?A @ ?M @ ?Z"
    by (auto simp: memcpy_def split: if_splits)
  have lA: "length ?A = d" using dn by simp
  have lM: "length ?M = n" using sn by simp
  show "length b = length dst" using dn by (simp only: b length_append lA lM) simp
  show "b ! (d + i) = src ! (s + i)" if i: "i < n" for i
  proof -
    have "b ! (d + i) = (?M @ ?Z) ! i"
      using nth_append_length_plus [of ?A "?M @ ?Z" i] by (simp only: b lA)
    also have "\<dots> = ?M ! i" using i by (simp only: nth_append lM if_True)
    also have "\<dots> = drop s src ! i" using i by (rule nth_take)
    also have "\<dots> = src ! (s + i)" using sn by (intro nth_drop) arith
    finally show ?thesis .
  qed
  show "b ! q = dst ! q" if q: "q < length dst" and out: "\<not> (d \<le> q \<and> q < d + n)" for q
  proof (cases "q < d")
    case True
    then have "b ! q = ?A ! q" by (simp only: b nth_append lA if_True)
    also have "\<dots> = dst ! q" using True by (rule nth_take)
    finally show ?thesis .
  next
    case False
    with out have ge: "d + n \<le> q" by arith
    define k where "k = q - (d + n)"
    have qk: "q = d + (n + k)" using ge by (simp add: k_def)
    have "b ! (d + (n + k)) = (?M @ ?Z) ! (n + k)"
      using nth_append_length_plus [of ?A "?M @ ?Z" "n + k"] by (simp only: b lA)
    also have "\<dots> = ?Z ! k"
      using nth_append_length_plus [of ?M ?Z k] by (simp only: lM)
    also have "\<dots> = dst ! (d + n + k)" using dn by (rule nth_drop)
    finally show ?thesis by (simp only: qk add.assoc)
  qed
qed


lemma put_copies:
  assumes wf: "ring_wf rb" and cnt: "unat cnt \<le> unat (size_rb rb)"
    and src: "unat cnt * unat (esize rb) \<le> length src"
    and sp: "ring_split rb cnt offset = (off, n, l)"
  shows "\<exists>b1 b2.
           memcpy (buffer rb) (unat off) src 0 (unat l) = Inr b1 \<and>
           memcpy b1 0 src (unat l) (unat (n - l)) = Inr b2 \<and>
           ring_put_internal rb src cnt offset = Inr (rb\<lparr>buffer := b2\<rparr>) \<and>
           length b2 = length (buffer rb) \<and>
           (\<forall>i < unat l. b2 ! (unat off + i) = src ! i) \<and>
           (\<forall>i < unat (n - l). b2 ! i = src ! (unat l + i)) \<and>
           (\<forall>q < length (buffer rb).
              \<not> (unat off \<le> q \<and> q < unat off + unat l) \<and> \<not> q < unat (n - l) \<longrightarrow>
              b2 ! q = buffer rb ! q)"
proof -
  note b = ring_split_bounds [OF wf cnt sp]
  let ?S = "cap_bytes rb" and ?o = "unat off" and ?n = "unat n" and ?l = "unat l"
  let ?r = "unat (n - l)"
  have S: "?S \<le> length (buffer rb)" using wf by (simp add: ring_wf_def)
  have nsrc: "?n \<le> length src" using src b(2) by simp
  have l: "?l = min ?n (?S - ?o)" by (rule b(3))
  have r: "?r = ?n - ?l" by (rule b(4))
  have ol: "?o + ?l \<le> ?S" using l b(5) by arith
  have ro: "?r \<le> ?o" using l r b(5) b(6) by arith
  have c1: "?o + ?l \<le> length (buffer rb) \<and> 0 + ?l \<le> length src" using ol S l nsrc by arith
  then obtain b1 where m1: "memcpy (buffer rb) ?o src 0 ?l = Inr b1"
    by (simp add: memcpy_def)
  note n1 = memcpy_nth [OF m1]
  have c2: "0 + ?r \<le> length b1 \<and> ?l + ?r \<le> length src"
    using ro ol S l r nsrc by (simp only: n1(1)) arith
  then obtain b2 where m2: "memcpy b1 0 src ?l ?r = Inr b2"
    by (simp add: memcpy_def)
  note n2 = memcpy_nth [OF m2]
  have put: "ring_put_internal rb src cnt offset = Inr (rb\<lparr>buffer := b2\<rparr>)"
    by (simp only: ring_put_internal_def sp prod.case m1 m2 sum.case)
  have len: "length b2 = length (buffer rb)" by (simp only: n2(1) n1(1))
  have first: "b2 ! (?o + i) = src ! i" if i: "i < ?l" for i
  proof -
    have "?o + i < length (buffer rb)" using i c1 by arith
    then have "?o + i < length b1" by (simp only: n1(1))
    moreover have "\<not> (0 \<le> ?o + i \<and> ?o + i < 0 + ?r)" using ro by arith
    ultimately have "b2 ! (?o + i) = b1 ! (?o + i)" by (rule n2(3))
    also have "\<dots> = src ! (0 + i)" using i by (rule n1(2))
    finally show ?thesis by simp
  qed
  have second: "b2 ! i = src ! (?l + i)" if i: "i < ?r" for i
    using n2(2) [OF i] by simp
  have frame: "b2 ! q = buffer rb ! q"
    if q: "q < length (buffer rb)" and o1: "\<not> (?o \<le> q \<and> q < ?o + ?l)" and o2: "\<not> q < ?r" for q
  proof -
    have "q < length b1" using q by (simp only: n1(1))
    moreover have "\<not> (0 \<le> q \<and> q < 0 + ?r)" using o2 by arith
    ultimately have "b2 ! q = b1 ! q" by (rule n2(3))
    also have "\<dots> = buffer rb ! q" using q o1 by (rule n1(3))
    finally show ?thesis .
  qed
  from m1 m2 put len first second frame show ?thesis by blast
qed

lemma get_copies:
  assumes wf: "ring_wf rb" and cnt: "unat cnt \<le> unat (size_rb rb)"
    and dst: "unat cnt * unat (esize rb) \<le> length dst"
    and sp: "ring_split rb cnt offset = (off, n, l)"
  shows "\<exists>d1 d2.
           memcpy dst 0 (buffer rb) (unat off) (unat l) = Inr d1 \<and>
           memcpy d1 (unat l) (buffer rb) 0 (unat (n - l)) = Inr d2 \<and>
           ring_get_internal rb dst cnt offset = Inr d2 \<and>
           length d2 = length dst \<and>
           (\<forall>i < unat l. d2 ! i = buffer rb ! (unat off + i)) \<and>
           (\<forall>i < unat (n - l). d2 ! (unat l + i) = buffer rb ! i) \<and>
           (\<forall>q < length dst. unat n \<le> q \<longrightarrow> d2 ! q = dst ! q)"
proof -
  note b = ring_split_bounds [OF wf cnt sp]
  let ?S = "cap_bytes rb" and ?o = "unat off" and ?n = "unat n" and ?l = "unat l"
  let ?r = "unat (n - l)"
  have S: "?S \<le> length (buffer rb)" using wf by (simp add: ring_wf_def)
  have ndst: "?n \<le> length dst" using dst b(2) by simp
  have l: "?l = min ?n (?S - ?o)" by (rule b(3))
  have r: "?r = ?n - ?l" by (rule b(4))
  have ol: "?o + ?l \<le> ?S" using l b(5) by arith
  have ro: "?r \<le> ?o" using l r b(5) b(6) by arith
  have c1: "0 + ?l \<le> length dst \<and> ?o + ?l \<le> length (buffer rb)" using ol S l ndst by arith
  then obtain d1 where m1: "memcpy dst 0 (buffer rb) ?o ?l = Inr d1"
    by (simp add: memcpy_def)
  note n1 = memcpy_nth [OF m1]
  have c2: "?l + ?r \<le> length d1 \<and> 0 + ?r \<le> length (buffer rb)"
    using ro ol S l r ndst by (simp only: n1(1)) arith
  then obtain d2 where m2: "memcpy d1 ?l (buffer rb) 0 ?r = Inr d2"
    by (simp add: memcpy_def)
  note n2 = memcpy_nth [OF m2]
  have get: "ring_get_internal rb dst cnt offset = Inr d2"
    by (simp only: ring_get_internal_def sp prod.case m1 m2 sum.case)
  have len: "length d2 = length dst" by (simp only: n2(1) n1(1))
  have first: "d2 ! i = buffer rb ! (?o + i)" if i: "i < ?l" for i
  proof -
    have "i < length d1" using i c1 by (simp only: n1(1)) arith
    moreover have "\<not> (?l \<le> i \<and> i < ?l + ?r)" using i by arith
    ultimately have "d2 ! i = d1 ! i" by (rule n2(3))
    also have "\<dots> = buffer rb ! (?o + i)" using n1(2) [OF i] by simp
    finally show ?thesis .
  qed
  have second: "d2 ! (?l + i) = buffer rb ! i" if i: "i < ?r" for i
    using n2(2) [OF i] by simp
  have rest: "d2 ! q = dst ! q" if q: "q < length dst" and nq: "?n \<le> q" for q
  proof -
    have "q < length d1" using q by (simp only: n1(1))
    moreover have "\<not> (?l \<le> q \<and> q < ?l + ?r)" using nq l r by arith
    ultimately have "d2 ! q = d1 ! q" by (rule n2(3))
    also have "\<dots> = dst ! q"
    proof (rule n1(3) [OF q])
      show "\<not> (0 \<le> q \<and> q < 0 + ?l)" using nq l by arith
    qed
    finally show ?thesis .
  qed
  from m1 m2 get len first second rest show ?thesis by blast
qed


lemma segments_arith:
  assumes wf: "ring_wf rb" and cnt: "unat cnt \<le> unat (size_rb rb)"
    and sp: "ring_split rb cnt offset = (off, n, l)"
  shows "unat off = unat (offset AND mask_rb rb) * unat (esize rb) \<and>
         unat n = unat cnt * unat (esize rb) \<and>
         unat l = min (unat n) (cap_bytes rb - unat off) \<and>
         unat off + unat l \<le> cap_bytes rb \<and>
         cap_bytes rb \<le> length (buffer rb) \<and>
         unat (n - l) = unat n - unat l \<and>
         unat (n - l) \<le> unat off \<and>
         unat l + unat (n - l) = unat cnt * unat (esize rb)"
proof -
  note b = ring_split_bounds [OF wf cnt sp]
  have S: "cap_bytes rb \<le> length (buffer rb)" using wf by (simp add: ring_wf_def)
  have 1: "unat off + unat l \<le> cap_bytes rb" using b(3) b(5) by arith
  have 2: "unat (n - l) \<le> unat off" using b(3) b(4) b(5) b(6) by arith
  have 3: "unat l + unat (n - l) = unat cnt * unat (esize rb)" using b(2) b(3) b(4) by arith
  show ?thesis using b(1) b(2) b(3) b(4) S 1 2 3 by (simp only: slot_off_def simp_thms)
qed

text \<open>
  Claim C10. On an initialised buffer, for a source and a destination that hold the
  elements to be copied, the two copies of \<^verbatim>\<open>__ring_put\<close> (as \<^verbatim>\<open>ring_put\<close> calls it, with the
  truncated count and \<open>head\<close>) and the two copies of \<^verbatim>\<open>__ring_get\<close> (as \<^verbatim>\<open>ring_get\<close> calls
  it, with the truncated count and \<open>tail\<close>) stay within bounds. None of the products of
  the prologue overflows; the first segment has \<open>l = min (len, size - offset)\<close> bytes,
  starts at \<open>offset\<close> and ends at or before the end of the ring area, which lies within
  the region; the second segment has \<open>len - l\<close> bytes, starts at the beginning of the
  region and ends at or before \<open>offset\<close>; together they have \<open>count * esize\<close> bytes. Both
  \<^verbatim>\<open>memcpy\<close> calls return without a fault, and their results are those of \<^verbatim>\<open>__ring_put\<close>
  and \<^verbatim>\<open>ring_put\<close> (of \<^verbatim>\<open>__ring_get\<close> and \<^verbatim>\<open>ring_get\<close>). The put writes the source bytes into
  the two segments and leaves every other byte of the region as it was; the get reads
  exactly the bytes of the two segments, in order, into the first \<open>len\<close> bytes of the
  destination and leaves the rest of the destination as it was.
\<close>

theorem copy_segments_in_bounds:
  assumes ok: "ring_ok rb"
    and src: "min (unat len) (unat (ring_space rb)) * unat (esize rb) \<le> length src"
    and dst: "min (unat len) (unat (ring_used rb)) * unat (esize rb) \<le> length dst"
  shows "(\<exists>cnt off n l b1 b2.
            cnt = min_u32 len (ucast (ring_space rb)) \<and>
            ring_split rb cnt (head rb) = (off, n, l) \<and>
            unat off = unat (head rb AND mask_rb rb) * unat (esize rb) \<and>
            unat n = unat cnt * unat (esize rb) \<and>
            unat l = min (unat n) (cap_bytes rb - unat off) \<and>
            unat off + unat l \<le> cap_bytes rb \<and>
            cap_bytes rb \<le> length (buffer rb) \<and>
            unat (n - l) = unat n - unat l \<and>
            unat (n - l) \<le> unat off \<and>
            unat l + unat (n - l) = unat cnt * unat (esize rb) \<and>
            memcpy (buffer rb) (unat off) src 0 (unat l) = Inr b1 \<and>
            memcpy b1 0 src (unat l) (unat (n - l)) = Inr b2 \<and>
            ring_put_internal rb src cnt (head rb) = Inr (rb\<lparr>buffer := b2\<rparr>) \<and>
            ring_put rb src len = Inr (cnt, rb\<lparr>buffer := b2, head := head rb + cnt\<rparr>) \<and>
            length b2 = length (buffer rb) \<and>
            (\<forall>i < unat l. b2 ! (unat off + i) = src ! i) \<and>
            (\<forall>i < unat (n - l). b2 ! i = src ! (unat l + i)) \<and>
            (\<forall>q < length (buffer rb).
               \<not> (unat off \<le> q \<and> q < unat off + unat l) \<and> \<not> q < unat (n - l) \<longrightarrow>
               b2 ! q = buffer rb ! q)) \<and>
         (\<exists>cnt off n l d1 d2.
            cnt = min_u32 (ucast (ring_used rb)) len \<and>
            ring_split rb cnt (tail rb) = (off, n, l) \<and>
            unat off = unat (tail rb AND mask_rb rb) * unat (esize rb) \<and>
            unat n = unat cnt * unat (esize rb) \<and>
            unat l = min (unat n) (cap_bytes rb - unat off) \<and>
            unat off + unat l \<le> cap_bytes rb \<and>
            cap_bytes rb \<le> length (buffer rb) \<and>
            unat (n - l) = unat n - unat l \<and>
            unat (n - l) \<le> unat off \<and>
            unat l + unat (n - l) = unat cnt * unat (esize rb) \<and>
            memcpy dst 0 (buffer rb) (unat off) (unat l) = Inr d1 \<and>
            memcpy d1 (unat l) (buffer rb) 0 (unat (n - l)) = Inr d2 \<and>
            ring_get_internal rb dst cnt (tail rb) = Inr d2 \<and>
            ring_get rb dst len = Inr (ucast cnt, rb\<lparr>tail := tail rb + cnt\<rparr>, d2) \<and>
            length d2 = length dst \<and>
            (\<forall>i < unat l. d2 ! i = buffer rb ! (unat off + i)) \<and>
            (\<forall>i < unat (n - l). d2 ! (unat l + i) = buffer rb ! i) \<and>
            (\<forall>q < length dst. unat n \<le> q \<longrightarrow> d2 ! q = dst ! q))"
proof -
  from ok have wf: "ring_wf rb" and inv: "ring_inv rb" by (simp_all add: ring_ok_def)
  let ?pc = "min_u32 len (ucast (ring_space rb))"
  let ?gc = "min_u32 (ucast (ring_used rb)) len"
  have pc: "?pc = put_count rb len"
    by (simp only: put_count_def ring_space_def ucast_size_t_u32)
  have gc: "?gc = get_count rb len"
    by (simp only: get_count_def ring_used_def ucast_size_t_u32)
  have pcs: "unat ?pc \<le> unat (size_rb rb)"
    unfolding pc using put_count_le [OF inv, of len] by arith
  have gcs: "unat ?gc \<le> unat (size_rb rb)"
    unfolding gc using get_count_le [of rb len] ring_inv_unat(1) [OF inv] by arith
  have src': "unat ?pc * unat (esize rb) \<le> length src"
    using src by (simp only: pc unat_put_count [OF inv])
  have dst': "unat ?gc * unat (esize rb) \<le> length dst"
    using dst by (simp only: gc unat_get_count)
  obtain off n l where sp: "ring_split rb ?pc (head rb) = (off, n, l)"
    by (cases "ring_split rb ?pc (head rb)") auto
  from put_copies [OF wf pcs src' sp] obtain b1 b2 where
    p: "memcpy (buffer rb) (unat off) src 0 (unat l) = Inr b1"
      "memcpy b1 0 src (unat l) (unat (n - l)) = Inr b2"
      "ring_put_internal rb src ?pc (head rb) = Inr (rb\<lparr>buffer := b2\<rparr>)"
      "length b2 = length (buffer rb)"
      "\<forall>i < unat l. b2 ! (unat off + i) = src ! i"
      "\<forall>i < unat (n - l). b2 ! i = src ! (unat l + i)"
      "\<forall>q < length (buffer rb).
         \<not> (unat off \<le> q \<and> q < unat off + unat l) \<and> \<not> q < unat (n - l) \<longrightarrow>
         b2 ! q = buffer rb ! q"
    by blast
  have put: "ring_put rb src len = Inr (?pc, rb\<lparr>buffer := b2, head := head rb + ?pc\<rparr>)"
    by (simp add: ring_put_def Let_def p(3))
  have A: "\<exists>cnt off n l b1 b2.
            cnt = ?pc \<and>
            ring_split rb cnt (head rb) = (off, n, l) \<and>
            unat off = unat (head rb AND mask_rb rb) * unat (esize rb) \<and>
            unat n = unat cnt * unat (esize rb) \<and>
            unat l = min (unat n) (cap_bytes rb - unat off) \<and>
            unat off + unat l \<le> cap_bytes rb \<and>
            cap_bytes rb \<le> length (buffer rb) \<and>
            unat (n - l) = unat n - unat l \<and>
            unat (n - l) \<le> unat off \<and>
            unat l + unat (n - l) = unat cnt * unat (esize rb) \<and>
            memcpy (buffer rb) (unat off) src 0 (unat l) = Inr b1 \<and>
            memcpy b1 0 src (unat l) (unat (n - l)) = Inr b2 \<and>
            ring_put_internal rb src cnt (head rb) = Inr (rb\<lparr>buffer := b2\<rparr>) \<and>
            ring_put rb src len = Inr (cnt, rb\<lparr>buffer := b2, head := head rb + cnt\<rparr>) \<and>
            length b2 = length (buffer rb) \<and>
            (\<forall>i < unat l. b2 ! (unat off + i) = src ! i) \<and>
            (\<forall>i < unat (n - l). b2 ! i = src ! (unat l + i)) \<and>
            (\<forall>q < length (buffer rb).
               \<not> (unat off \<le> q \<and> q < unat off + unat l) \<and> \<not> q < unat (n - l) \<longrightarrow>
               b2 ! q = buffer rb ! q)"
    by (insert sp segments_arith [OF wf pcs sp] p put,
        rule exI [of _ ?pc], rule exI [of _ off], rule exI [of _ n], rule exI [of _ l],
        rule exI [of _ b1], rule exI [of _ b2], elim conjE)
       (intro conjI refl; assumption)
  obtain off' n' l' where sp': "ring_split rb ?gc (tail rb) = (off', n', l')"
    by (cases "ring_split rb ?gc (tail rb)") auto
  from get_copies [OF wf gcs dst' sp'] obtain d1 d2 where
    g: "memcpy dst 0 (buffer rb) (unat off') (unat l') = Inr d1"
      "memcpy d1 (unat l') (buffer rb) 0 (unat (n' - l')) = Inr d2"
      "ring_get_internal rb dst ?gc (tail rb) = Inr d2"
      "length d2 = length dst"
      "\<forall>i < unat l'. d2 ! i = buffer rb ! (unat off' + i)"
      "\<forall>i < unat (n' - l'). d2 ! (unat l' + i) = buffer rb ! i"
      "\<forall>q < length dst. unat n' \<le> q \<longrightarrow> d2 ! q = dst ! q"
    by blast
  have get: "ring_get rb dst len = Inr (ucast ?gc, rb\<lparr>tail := tail rb + ?gc\<rparr>, d2)"
    by (simp add: ring_get_def Let_def g(3))
  have B: "\<exists>cnt off n l d1 d2.
            cnt = ?gc \<and>
            ring_split rb cnt (tail rb) = (off, n, l) \<and>
            unat off = unat (tail rb AND mask_rb rb) * unat (esize rb) \<and>
            unat n = unat cnt * unat (esize rb) \<and>
            unat l = min (unat n) (cap_bytes rb - unat off) \<and>
            unat off + unat l \<le> cap_bytes rb \<and>
            cap_bytes rb \<le> length (buffer rb) \<and>
            unat (n - l) = unat n - unat l \<and>
            unat (n - l) \<le> unat off \<and>
            unat l + unat (n - l) = unat cnt * unat (esize rb) \<and>
            memcpy dst 0 (buffer rb) (unat off) (unat l) = Inr d1 \<and>
            memcpy d1 (unat l) (buffer rb) 0 (unat (n - l)) = Inr d2 \<and>
            ring_get_internal rb dst cnt (tail rb) = Inr d2 \<and>
            ring_get rb dst len = Inr (ucast cnt, rb\<lparr>tail := tail rb + cnt\<rparr>, d2) \<and>
            length d2 = length dst \<and>
            (\<forall>i < unat l. d2 ! i = buffer rb ! (unat off + i)) \<and>
            (\<forall>i < unat (n - l). d2 ! (unat l + i) = buffer rb ! i) \<and>
            (\<forall>q < length dst. unat n \<le> q \<longrightarrow> d2 ! q = dst ! q)"
    by (insert sp' segments_arith [OF wf gcs sp'] g get,
        rule exI [of _ ?gc], rule exI [of _ off'], rule exI [of _ n'], rule exI [of _ l'],
        rule exI [of _ d1], rule exI [of _ d2], elim conjE)
       (intro conjI refl; assumption)
  from A B show ?thesis ..
qed

text \<open>
  Two states with wrapped counters. With \<open>head\<close> at slot 3 and two free slots, a put of
  two elements writes 2 bytes at offset 6 and 2 bytes at offset 0. With \<open>tail\<close> at slot 1
  and a full buffer, a get of four elements reads 6 bytes from offset 2 and 2 bytes from
  offset 0.
\<close>

theorem copy_segments_in_bounds_witness:
  "ring_ok (example_ring 0xFFFFFFFF 0xFFFFFFFD) \<and>
   min (unat (7::u32)) (unat (ring_space (example_ring 0xFFFFFFFF 0xFFFFFFFD))) *
     unat (esize (example_ring 0xFFFFFFFF 0xFFFFFFFD)) \<le> length [1, 2, 3, 4 :: byte] \<and>
   min (unat (7::u32)) (unat (ring_used (example_ring 0xFFFFFFFF 0xFFFFFFFD))) *
     unat (esize (example_ring 0xFFFFFFFF 0xFFFFFFFD)) \<le> length [0, 0, 0, 0 :: byte] \<and>
   ring_ok (example_ring 1 0xFFFFFFFD) \<and>
   min (unat (7::u32)) (unat (ring_space (example_ring 1 0xFFFFFFFD))) *
     unat (esize (example_ring 1 0xFFFFFFFD)) \<le> length ([] :: byte list) \<and>
   min (unat (7::u32)) (unat (ring_used (example_ring 1 0xFFFFFFFD))) *
     unat (esize (example_ring 1 0xFFFFFFFD)) \<le> length [0, 0, 0, 0, 0, 0, 0, 0 :: byte] \<and>
   ring_split (example_ring 0xFFFFFFFF 0xFFFFFFFD) 2 0xFFFFFFFF = (6, 4, 2) \<and>
   memcpy [10, 11, 12, 13, 14, 15, 16, 17] 6 [1, 2, 3, 4] 0 2 =
     Inr [10, 11, 12, 13, 14, 15, 1, 2] \<and>
   memcpy [10, 11, 12, 13, 14, 15, 1, 2] 0 [1, 2, 3, 4] 2 2 =
     Inr [3, 4, 12, 13, 14, 15, 1, 2] \<and>
   ring_put_internal (example_ring 0xFFFFFFFF 0xFFFFFFFD) [1, 2, 3, 4] 2 0xFFFFFFFF =
     Inr \<lparr>buffer = [3, 4, 12, 13, 14, 15, 1, 2], size_rb = 4, mask_rb = 3, esize = 2,
          head = 0xFFFFFFFF, tail = 0xFFFFFFFD\<rparr> \<and>
   ring_put (example_ring 0xFFFFFFFF 0xFFFFFFFD) [1, 2, 3, 4] 7 =
     Inr (2, \<lparr>buffer = [3, 4, 12, 13, 14, 15, 1, 2], size_rb = 4, mask_rb = 3, esize = 2,
              head = 1, tail = 0xFFFFFFFD\<rparr>) \<and>
   ring_split (example_ring 1 0xFFFFFFFD) 4 0xFFFFFFFD = (2, 8, 6) \<and>
   memcpy [0, 0, 0, 0, 0, 0, 0, 0] 0 [10, 11, 12, 13, 14, 15, 16, 17] 2 6 =
     Inr [12, 13, 14, 15, 16, 17, 0, 0] \<and>
   memcpy [12, 13, 14, 15, 16, 17, 0, 0] 6 [10, 11, 12, 13, 14, 15, 16, 17] 0 2 =
     Inr [12, 13, 14, 15, 16, 17, 10, 11] \<and>
   ring_get_internal (example_ring 1 0xFFFFFFFD) [0, 0, 0, 0, 0, 0, 0, 0] 4 0xFFFFFFFD =
     Inr [12, 13, 14, 15, 16, 17, 10, 11] \<and>
   ring_get (example_ring 1 0xFFFFFFFD) [0, 0, 0, 0, 0, 0, 0, 0] 7 =
     Inr (4, example_ring 1 1, [12, 13, 14, 15, 16, 17, 10, 11])"
proof -
  have okA: "ring_ok (example_ring 0xFFFFFFFF 0xFFFFFFFD)" by (rule example_ring_ok) simp
  have srcA: "min (unat (7::u32)) (unat (ring_space (example_ring 0xFFFFFFFF 0xFFFFFFFD))) *
      unat (esize (example_ring 0xFFFFFFFF 0xFFFFFFFD)) \<le> length [1, 2, 3, 4 :: byte]"
    by (simp add: eval_defs)
  have dstA: "min (unat (7::u32)) (unat (ring_used (example_ring 0xFFFFFFFF 0xFFFFFFFD))) *
      unat (esize (example_ring 0xFFFFFFFF 0xFFFFFFFD)) \<le> length [0, 0, 0, 0 :: byte]"
    by (simp add: eval_defs)
  have okB: "ring_ok (example_ring 1 0xFFFFFFFD)" by (rule example_ring_ok) simp
  have srcB: "min (unat (7::u32)) (unat (ring_space (example_ring 1 0xFFFFFFFD))) *
      unat (esize (example_ring 1 0xFFFFFFFD)) \<le> length ([] :: byte list)"
    by (simp add: eval_defs)
  have dstB: "min (unat (7::u32)) (unat (ring_used (example_ring 1 0xFFFFFFFD))) *
      unat (esize (example_ring 1 0xFFFFFFFD)) \<le> length [0, 0, 0, 0, 0, 0, 0, 0 :: byte]"
    by (simp add: eval_defs)
  from copy_segments_in_bounds [OF okA srcA dstA] copy_segments_in_bounds [OF okB srcB dstB]
    okA srcA dstA okB srcB dstB
  show ?thesis by (simp add: eval_defs)
qed

end
